theory Spec2Isabelle
  imports Complex_Main "HOL-Library.AList" "HOL-Library.Char_ord" "HOL-Library.List_Lexorder"
begin

section \<open>Python strings\<close>

text \<open>
  A Python \<open>str\<close> is modelled as a \<open>string\<close> (a list of 8-bit characters), so the model
  is exact on ASCII text. \<open>str.strip\<close>, \<open>str.split\<close> and the regular expression class
  \<open>\s\<close> use Python's whitespace: on ASCII these are the characters 0x09-0x0D, 0x1C-0x1F
  and the blank. \<open>str.lower\<close> and \<open>str.isupper\<close> act on the letters A-Z.
\<close>

definition py_isspace :: "char \<Rightarrow> bool" where
  "py_isspace c \<longleftrightarrow> c \<in> {CHR 0x09, CHR 0x0A, CHR 0x0B, CHR 0x0C, CHR 0x0D,
                        CHR 0x1C, CHR 0x1D, CHR 0x1E, CHR 0x1F, CHR '' ''}"

definition lstrip :: "string \<Rightarrow> string" where
  "lstrip s = dropWhile py_isspace s"

definition rstrip :: "string \<Rightarrow> string" where
  "rstrip s = rev (dropWhile py_isspace (rev s))"

definition strip :: "string \<Rightarrow> string" where
  "strip s = rstrip (lstrip s)"

text \<open>\<open>s.rstrip(",")\<close>: trailing commas removed.\<close>

definition rstrip_comma :: "string \<Rightarrow> string" where
  "rstrip_comma s = rev (dropWhile (\<lambda>c. c = CHR '','') (rev s))"

definition isupper :: "char \<Rightarrow> bool" where
  "isupper c \<longleftrightarrow> CHR ''A'' \<le> c \<and> c \<le> CHR ''Z''"

text \<open>An upper-case letter has bit 5 clear; setting it adds 32, which gives the lower-case letter.\<close>

definition lower_char :: "char \<Rightarrow> char" where
  "lower_char c =
     (if isupper c
      then Char (digit0 c) (digit1 c) (digit2 c) (digit3 c) (digit4 c) True (digit6 c) (digit7 c)
      else c)"

definition lower :: "string \<Rightarrow> string" where
  "lower s = map lower_char s"

text \<open>\<open>s.split()\<close>: the maximal runs of non-whitespace characters, in order.\<close>

fun split_acc :: "string \<Rightarrow> string \<Rightarrow> string list" where
  "split_acc w [] = (if w = [] then [] else [rev w])"
| "split_acc w (c # cs) =
     (if py_isspace c then (if w = [] then split_acc [] cs else rev w # split_acc [] cs)
      else split_acc (c # w) cs)"

definition split :: "string \<Rightarrow> string list" where
  "split s = split_acc [] s"

text \<open>\<open>a in b\<close> on strings: \<open>a\<close> occurs in \<open>b\<close> as a contiguous substring.\<close>

fun is_prefix :: "string \<Rightarrow> string \<Rightarrow> bool" where
  "is_prefix [] ys = True"
| "is_prefix (x # xs) [] = False"
| "is_prefix (x # xs) (y # ys) = (x = y \<and> is_prefix xs ys)"

fun contains :: "string \<Rightarrow> string \<Rightarrow> bool" where
  "contains a [] = (a = [])"
| "contains a (y # ys) = (is_prefix a (y # ys) \<or> contains a ys)"

text \<open>\<open>sep.join(xs)\<close>.\<close>

fun join :: "string \<Rightarrow> string list \<Rightarrow> string" where
  "join sep [] = []"
| "join sep [x] = x"
| "join sep (x # y # ys) = x @ sep @ join sep (y # ys)"

section \<open>Python values read from JSON\<close>

text \<open>
  The values \<open>json.loads\<close> returns. A number written without fraction and exponent is a
  Python \<open>int\<close>; any other number is a \<open>float\<close>, kept here as the exact rational its
  literal denotes (Python rounds it to a double; the code only tests such a value for
  truth, compares it with zero and stores it in a set). \<open>json.loads\<close> also reads
  \<open>NaN\<close>, \<open>Infinity\<close> and \<open>-Infinity\<close>. A \<open>dict\<close> is an association list in insertion
  order.
\<close>

datatype pynum = Num rat | PosInf | NegInf | NaN

datatype json =
    JNull
  | JBool bool
  | JInt int
  | JFloat pynum
  | JStr string
  | JArr "json list"
  | JObj "(string \<times> json) list"

text \<open>Truth value of a Python object, as \<open>if x:\<close> tests it.\<close>

fun truthy :: "json \<Rightarrow> bool" where
  "truthy JNull = False"
| "truthy (JBool b) = b"
| "truthy (JInt n) = (n \<noteq> 0)"
| "truthy (JFloat (Num r)) = (r \<noteq> 0)"
| "truthy (JFloat _) = True"
| "truthy (JStr s) = (s \<noteq> [])"
| "truthy (JArr xs) = (xs \<noteq> [])"
| "truthy (JObj kvs) = (kvs \<noteq> [])"

text \<open>
  \<open>str(x)\<close>: the identity on a \<open>str\<close>. What the builtin prints for a number, a list or
  a dict is the parameter \<open>str_of\<close> of the functions below; no property proved here
  depends on it.
\<close>

definition py_str :: "(json \<Rightarrow> string) \<Rightarrow> json \<Rightarrow> string" where
  "py_str str_of v = (case v of JStr s \<Rightarrow> s | _ \<Rightarrow> str_of v)"

text \<open>\<open>d.get(k)\<close> on a dict.\<close>

definition dict_get :: "(string \<times> 'v) list \<Rightarrow> string \<Rightarrow> 'v option" where
  "dict_get d k = map_of d k"

section \<open>The validator: \<open>clean_and_validate\<close>\<close>

definition PRONOUNS :: "string set" where
  "PRONOUNS = {''i'', ''me'', ''my'', ''mine'', ''he'', ''she'', ''it'', ''they'', ''his'',
               ''her'', ''its'', ''their'', ''him'', ''them'', ''we'', ''us'', ''our''}"

definition BODY_PARTS :: "string set" where
  "BODY_PARTS = {''head'', ''heads'', ''hand'', ''hands'', ''eye'', ''eyes'', ''arm'', ''arms'',
                 ''leg'', ''legs'', ''body'', ''bodies'', ''finger'', ''fingers'', ''palm'',
                 ''palms'', ''brain'', ''brains'', ''temple'', ''temples'', ''back'', ''limbs'',
                 ''gaze'', ''vision'', ''face'', ''chest''}"

definition ABSTRACT :: "string set" where
  "ABSTRACT = {''pain'', ''thought'', ''thoughts'', ''mind'', ''minds'', ''strength'',
               ''confusion'', ''darkness'', ''sleep'', ''death'', ''work'', ''time'', ''focus'',
               ''memory'', ''feeling''}"

definition EXCLUDED :: "string set" where
  "EXCLUDED = PRONOUNS \<union> BODY_PARTS \<union> ABSTRACT"

text \<open>The canonical record appended to \<open>cleaned\<close> (lines 275-282).\<close>

record rec =
  r_index :: int
  r_text :: string
  r_characters :: "string list"
  r_entities :: "string list"
  r_coref :: "(string \<times> string) list"
  r_speaker :: string

text \<open>
  \<open>pov_char_fallback\<close> (lines 150-152): \<open>sorted(list(mentioned_characters))[0]\<close> when the
  set is not empty, else \<open>None\<close>.
\<close>

definition pov_char_fallback :: "string set \<Rightarrow> string option" where
  "pov_char_fallback mentioned = (if mentioned = {} then None else Some (Min mentioned))"

text \<open>
  Text recovery (lines 159-180). \<open>original_sentences\<close> holds strings only: \<open>process_batch\<close>
  passes its flattened list.
\<close>

definition obj_text :: "(json \<Rightarrow> string) \<Rightarrow> (string \<times> json) list \<Rightarrow> string" where
  "obj_text str_of obj =
     strip (case dict_get obj ''text'' of
              None \<Rightarrow> []
            | Some (JStr s) \<Rightarrow> s
            | Some (JArr items) \<Rightarrow> join '' '' (map (py_str str_of) (filter truthy items))
            | Some JNull \<Rightarrow> []
            | Some v \<Rightarrow> str_of v)"

definition recover_text ::
  "(json \<Rightarrow> string) \<Rightarrow> (string \<times> json) list \<Rightarrow> string list \<Rightarrow> nat \<Rightarrow> string" where
  "recover_text str_of obj original_sentences idx =
     (let text = obj_text str_of obj
      in if text = [] \<and> idx < length original_sentences
         then strip (original_sentences ! idx) else text)"

text \<open>Character filtering (lines 182-195).\<close>

definition obj_list :: "(string \<times> json) list \<Rightarrow> string \<Rightarrow> json list" where
  "obj_list obj k = (case dict_get obj k of Some (JArr xs) \<Rightarrow> xs | _ \<Rightarrow> [])"

text \<open>An element that is \<open>None\<close> is passed over; any other is made a string and stripped.\<close>

definition candidates :: "(json \<Rightarrow> string) \<Rightarrow> json list \<Rightarrow> string list" where
  "candidates str_of xs = map (\<lambda>c. strip (py_str str_of c)) (filter (\<lambda>c. c \<noteq> JNull) xs)"

definition character_ok :: "string \<Rightarrow> string \<Rightarrow> bool" where
  "character_ok text c \<longleftrightarrow>
     c \<noteq> [] \<and> length c > 1 \<and> isupper (hd c) \<and> lower c \<notin> PRONOUNS \<and> contains c text"

definition valid_characters :: "(json \<Rightarrow> string) \<Rightarrow> string \<Rightarrow> (string \<times> json) list \<Rightarrow> string list" where
  "valid_characters str_of text obj =
     filter (character_ok text) (candidates str_of (obj_list obj ''characters''))"

text \<open>Entity filtering and the union with the accepted characters (lines 197-212).\<close>

definition entity_ok :: "string \<Rightarrow> bool" where
  "entity_ok e \<longleftrightarrow> e \<noteq> [] \<and> lower e \<notin> EXCLUDED"

definition append_missing :: "string list \<Rightarrow> string \<Rightarrow> string list" where
  "append_missing es c = (if c \<in> set es then es else es @ [c])"

definition valid_entities ::
  "(json \<Rightarrow> string) \<Rightarrow> (string \<times> json) list \<Rightarrow> string list \<Rightarrow> string list" where
  "valid_entities str_of obj chars =
     foldl append_missing (filter entity_ok (candidates str_of (obj_list obj ''entities''))) chars"

text \<open>Coreference filtering (lines 214-242).\<close>

definition obj_dict :: "(string \<times> json) list \<Rightarrow> string \<Rightarrow> (string \<times> json) list" where
  "obj_dict obj k = (case dict_get obj k of Some (JObj d) \<Rightarrow> d | _ \<Rightarrow> [])"

text \<open>The referent made a string (lines 219-225); \<open>None\<close> stands for \<open>continue\<close>.\<close>

definition referent_str :: "(json \<Rightarrow> string) \<Rightarrow> json \<Rightarrow> string option" where
  "referent_str str_of referent =
     (case referent of
        JStr s \<Rightarrow> Some s
      | JArr (x # xs) \<Rightarrow>
          Some (case filter truthy (x # xs) of [] \<Rightarrow> [] | r # _ \<Rightarrow> py_str str_of r)
      | JNull \<Rightarrow> None
      | v \<Rightarrow> Some (str_of v))"

text \<open>\<open>re.sub(r'[\[\]]', '', referent)\<close>.\<close>

definition strip_brackets :: "string \<Rightarrow> string" where
  "strip_brackets s = filter (\<lambda>c. c \<noteq> CHR ''['' \<and> c \<noteq> CHR '']'') s"

definition coref_step ::
  "(json \<Rightarrow> string) \<Rightarrow> (string \<times> string) list \<Rightarrow> string \<times> json \<Rightarrow> (string \<times> string) list" where
  "coref_step str_of fixed_coref item =
     (case referent_str str_of (snd item) of
        None \<Rightarrow> fixed_coref
      | Some r0 \<Rightarrow>
          let referent = strip r0 in
          if referent = [] then fixed_coref
          else let pronoun = lower (strip (fst item)) in
          if pronoun = [] then fixed_coref
          else let referent = strip (strip_brackets referent) in
          if pronoun = lower referent \<or> lower referent \<in> PRONOUNS then fixed_coref
          else if length referent > 1 \<and> isupper (hd referent)
               then AList.update pronoun referent fixed_coref
               else fixed_coref)"

definition fix_coref :: "(json \<Rightarrow> string) \<Rightarrow> (string \<times> json) list \<Rightarrow> (string \<times> string) list" where
  "fix_coref str_of obj = foldl (coref_step str_of) [] (obj_dict obj ''coref'')"

text \<open>Speaker resolution (lines 244-273).\<close>

definition has_first_person :: "string \<Rightarrow> bool" where
  "has_first_person text_lower \<longleftrightarrow>
     (\<exists>p \<in> set [''i'', ''my'', ''me'', ''i'' @ [CHR 0x27] @ ''m'', ''i'' @ [CHR 0x27] @ ''ve'',
                 ''i'' @ [CHR 0x27] @ ''d'']. p \<in> set (split text_lower))"

definition raw_speaker :: "(json \<Rightarrow> string) \<Rightarrow> (string \<times> json) list \<Rightarrow> string" where
  "raw_speaker str_of obj =
     strip (case dict_get obj ''speaker'' of
              None \<Rightarrow> ''Narrator''
            | Some (JStr s) \<Rightarrow> s
            | Some (JArr (x # xs)) \<Rightarrow> (if truthy x then py_str str_of x else ''Narrator'')
            | Some JNull \<Rightarrow> ''Narrator''
            | Some v \<Rightarrow> str_of v)"

definition needs_pov :: "string \<Rightarrow> string \<Rightarrow> bool" where
  "needs_pov text speaker \<longleftrightarrow>
     has_first_person (lower text) \<and>
     (speaker = ''Narrator'' \<or> speaker = [] \<or> lower speaker \<in> PRONOUNS)"

text \<open>
  \<open>current_pov_char\<close> (lines 258-261): \<open>pov_char_fallback or "Unknown Character"\<close>,
  replaced by the first accepted character when there is one.
\<close>

definition current_pov_char :: "string option \<Rightarrow> string list \<Rightarrow> string" where
  "current_pov_char fallback chars =
     (case chars of
        c # _ \<Rightarrow> c
      | [] \<Rightarrow> (case fallback of
                 None \<Rightarrow> ''Unknown Character''
               | Some f \<Rightarrow> if f = [] then ''Unknown Character'' else f))"

definition backfill :: "string \<Rightarrow> string \<Rightarrow> string \<Rightarrow> (string \<times> string) list \<Rightarrow> (string \<times> string) list" where
  "backfill text_lower key pov fixed_coref =
     (if key \<in> set (split text_lower) \<and> dict_get fixed_coref key = None
      then AList.update key pov fixed_coref else fixed_coref)"

definition resolve_speaker ::
  "string option \<Rightarrow> string \<Rightarrow> string list \<Rightarrow> string \<Rightarrow> (string \<times> string) list
     \<Rightarrow> string \<times> (string \<times> string) list" where
  "resolve_speaker fallback text chars speaker fixed_coref =
     (if needs_pov text speaker
      then let pov = current_pov_char fallback chars in
           if pov \<noteq> ''Unknown Character''
           then (pov, backfill (lower text) ''me'' pov
                        (backfill (lower text) ''my'' pov
                          (backfill (lower text) ''i'' pov fixed_coref)))
           else (speaker, fixed_coref)
      else (speaker, fixed_coref))"

definition final_speaker :: "string \<Rightarrow> string" where
  "final_speaker speaker =
     (if speaker = [] \<or> lower speaker \<in> PRONOUNS then ''Narrator'' else speaker)"

text \<open>
  The body of the loop for one element of \<open>parsed\<close>: \<open>None\<close> when the element is passed
  over (not a dict, or no text), else the record and the names added to
  \<open>mentioned_characters\<close>. No statement of the body raises on values read from JSON, so
  the handler of lines 284-290 is never entered.
\<close>

definition validate_obj ::
  "(json \<Rightarrow> string) \<Rightarrow> string option \<Rightarrow> string list \<Rightarrow> int \<Rightarrow> nat \<Rightarrow> json \<Rightarrow> rec option" where
  "validate_obj str_of fallback original_sentences base_index idx v =
     (case v of
        JObj obj \<Rightarrow>
          let text = recover_text str_of obj original_sentences idx in
          if text = [] then None
          else
            let chars = valid_characters str_of text obj;
                ents = valid_entities str_of obj chars;
                (speaker, fixed_coref) =
                   resolve_speaker fallback text chars (raw_speaker str_of obj)
                     (fix_coref str_of obj)
            in Some \<lparr> r_index = base_index + int idx, r_text = text, r_characters = chars,
                      r_entities = ents, r_coref = fixed_coref,
                      r_speaker = final_speaker speaker \<rparr>
      | _ \<Rightarrow> None)"

text \<open>
  The loop over \<open>enumerate(parsed)\<close>, from position \<open>idx\<close> on: the records in order and the
  grown set of mentioned characters. The fallback name was fixed before the loop.
\<close>

fun validate_loop ::
  "(json \<Rightarrow> string) \<Rightarrow> string option \<Rightarrow> string list \<Rightarrow> int \<Rightarrow> nat \<Rightarrow> json list
     \<Rightarrow> string set \<Rightarrow> rec list \<times> string set" where
  "validate_loop str_of fallback original_sentences base_index idx [] mentioned = ([], mentioned)"
| "validate_loop str_of fallback original_sentences base_index idx (v # vs) mentioned =
     (case validate_obj str_of fallback original_sentences base_index idx v of
        None \<Rightarrow> validate_loop str_of fallback original_sentences base_index (Suc idx) vs mentioned
      | Some r \<Rightarrow>
          (let (rs, m) = validate_loop str_of fallback original_sentences base_index (Suc idx) vs
                            (mentioned \<union> set (r_characters r))
           in (r # rs, m)))"

datatype error = TypeError | JSONDecodeError | AttributeError

text \<open>
  \<open>clean_and_validate(parsed, original_sentences, base_index)\<close> with the global
  \<open>mentioned_characters\<close> passed in and returned. \<open>enumerate\<close> walks a list; a string
  yields its characters and a dict its keys, none of them a dict, so nothing is
  emitted; any other value is not iterable and \<open>enumerate\<close> raises \<open>TypeError\<close>.
\<close>

definition clean_and_validate ::
  "(json \<Rightarrow> string) \<Rightarrow> string set \<Rightarrow> json \<Rightarrow> string list \<Rightarrow> int
     \<Rightarrow> (error + rec list) \<times> string set" where
  "clean_and_validate str_of mentioned parsed original_sentences base_index =
     (case parsed of
        JArr vs \<Rightarrow>
          (let (rs, m) = validate_loop str_of (pov_char_fallback mentioned) original_sentences
                            base_index 0 vs mentioned
           in (Inr rs, m))
      | JStr s \<Rightarrow> (Inr [], mentioned)
      | JObj d \<Rightarrow> (Inr [], mentioned)
      | _ \<Rightarrow> (Inl TypeError, mentioned))"

section \<open>\<open>json.loads\<close>\<close>

definition is_digit :: "char \<Rightarrow> bool" where
  "is_digit c \<longleftrightarrow> CHR ''0'' \<le> c \<and> c \<le> CHR ''9''"

definition digit_val :: "char \<Rightarrow> nat" where
  "digit_val c = of_char c - 48"

definition digits_val :: "string \<Rightarrow> nat" where
  "digits_val ds = foldl (\<lambda>a d. 10 * a + digit_val d) 0 ds"

definition hex_val :: "char \<Rightarrow> nat option" where
  "hex_val c =
     (if is_digit c then Some (of_char c - 48)
      else if CHR ''a'' \<le> c \<and> c \<le> CHR ''f'' then Some (of_char c - 87)
      else if CHR ''A'' \<le> c \<and> c \<le> CHR ''F'' then Some (of_char c - 55)
      else None)"

text \<open>The four hexadecimal digits of a \<open>\uXXXX\<close> escape.\<close>

definition hex4 :: "string \<Rightarrow> nat option" where
  "hex4 s =
     (case s of
        a # b # c # d # _ \<Rightarrow>
          (case (hex_val a, hex_val b, hex_val c, hex_val d) of
             (Some x, Some y, Some z, Some w) \<Rightarrow> Some (((x * 16 + y) * 16 + z) * 16 + w)
           | _ \<Rightarrow> None)
      | _ \<Rightarrow> None)"

text \<open>A code point as the bytes of its UTF-8 encoding.\<close>

definition utf8 :: "nat \<Rightarrow> string" where
  "utf8 n =
     (if n < 0x80 then [char_of n]
      else if n < 0x800 then [char_of (0xC0 + n div 64), char_of (0x80 + n mod 64)]
      else if n < 0x10000
      then [char_of (0xE0 + n div 4096), char_of (0x80 + n div 64 mod 64), char_of (0x80 + n mod 64)]
      else [char_of (0xF0 + n div 262144), char_of (0x80 + n div 4096 mod 64),
            char_of (0x80 + n div 64 mod 64), char_of (0x80 + n mod 64)])"

text \<open>
  The escape after a backslash: the characters it stands for and the input left. A
  high surrogate followed by the escape of a low surrogate is one code point.
\<close>

definition scan_escape :: "string \<Rightarrow> (string \<times> string) option" where
  "scan_escape s =
     (case s of
        [] \<Rightarrow> None
      | e # r \<Rightarrow>
          if e = CHR 0x22 then Some ([CHR 0x22], r)
          else if e = CHR 0x5C then Some ([CHR 0x5C], r)
          else if e = CHR ''/'' then Some (''/'', r)
          else if e = CHR ''b'' then Some ([CHR 0x08], r)
          else if e = CHR ''f'' then Some ([CHR 0x0C], r)
          else if e = CHR ''n'' then Some ([CHR 0x0A], r)
          else if e = CHR ''r'' then Some ([CHR 0x0D], r)
          else if e = CHR ''t'' then Some ([CHR 0x09], r)
          else if e = CHR ''u'' then
            (case hex4 r of
               None \<Rightarrow> None
             | Some u1 \<Rightarrow>
                 let r1 = drop 4 r in
                 if 0xD800 \<le> u1 \<and> u1 \<le> 0xDBFF \<and> take 2 r1 = [CHR 0x5C, CHR ''u'']
                 then (case hex4 (drop 2 r1) of
                         Some u2 \<Rightarrow>
                           if 0xDC00 \<le> u2 \<and> u2 \<le> 0xDFFF
                           then Some (utf8 (0x10000 + (u1 - 0xD800) * 1024 + (u2 - 0xDC00)),
                                      drop 6 r1)
                           else Some (utf8 u1, r1)
                       | None \<Rightarrow> Some (utf8 u1, r1))
                 else Some (utf8 u1, r1))
          else None)"

lemma hex4_length: "hex4 r = Some u \<Longrightarrow> 4 \<le> length r"
  by (auto simp: hex4_def split: list.splits)

lemma scan_escape_length:
  "scan_escape s = Some (cs, rest) \<Longrightarrow> length rest < length s"
  by (auto simp: scan_escape_def Let_def split: list.splits if_splits option.splits
           dest: hex4_length)

text \<open>
  The body of a string literal, after its opening quote: the decoded string and the
  input after the closing quote. A raw control character ends the parse (strict mode).
\<close>

function scan_string :: "string \<Rightarrow> (string \<times> string) option" where
  "scan_string [] = None"
| "scan_string (c # cs) =
     (if c = CHR 0x22 then Some ([], cs)
      else if c = CHR 0x5C then
        (case scan_escape cs of
           None \<Rightarrow> None
         | Some (e, rest) \<Rightarrow>
             (case scan_string rest of None \<Rightarrow> None | Some (s, rest') \<Rightarrow> Some (e @ s, rest')))
      else if c < CHR 0x20 then None
      else (case scan_string cs of None \<Rightarrow> None | Some (s, rest) \<Rightarrow> Some (c # s, rest)))"
  by pat_completeness auto
termination
  by (relation "measure length") (auto dest: scan_escape_length)

lemma scan_string_length: "scan_string s = Some (v, rest) \<Longrightarrow> length rest < length s"
proof (induction s arbitrary: v rest rule: scan_string.induct)
  case 1
  then show ?case by simp
next
  case (2 c cs)
  then show ?case
    by (fastforce split: if_splits option.splits prod.splits dest: scan_escape_length)
qed


text \<open>
  A number (\<open>-?(0|[1-9][0-9]*)(\.[0-9]+)?([eE][-+]?[0-9]+)?\<close>): the longest match.
  A fraction or an exponent that has no digit is not part of the number.
\<close>

definition scan_int_part :: "string \<Rightarrow> (string \<times> string) option" where
  "scan_int_part s =
     (case s of
        [] \<Rightarrow> None
      | d # r \<Rightarrow>
          if d = CHR ''0'' then Some ([d], r)
          else if is_digit d then Some (d # takeWhile is_digit r, dropWhile is_digit r)
          else None)"

definition scan_frac :: "string \<Rightarrow> (string \<times> string) option" where
  "scan_frac s =
     (case s of
        p # d # r \<Rightarrow>
          if p = CHR ''.'' \<and> is_digit d
          then Some (d # takeWhile is_digit r, dropWhile is_digit r) else None
      | _ \<Rightarrow> None)"

text \<open>The exponent: its value and the input left.\<close>

definition scan_exp :: "string \<Rightarrow> (int \<times> string) option" where
  "scan_exp s =
     (case s of
        e # r \<Rightarrow>
          if e = CHR ''e'' \<or> e = CHR ''E'' then
            (case r of
               g # r' \<Rightarrow>
                 if is_digit g
                 then Some (int (digits_val (takeWhile is_digit r)), dropWhile is_digit r)
                 else if (g = CHR ''+'' \<or> g = CHR ''-'') \<and> r' \<noteq> [] \<and> is_digit (hd r')
                 then Some ((if g = CHR ''-'' then - 1 else 1)
                              * int (digits_val (takeWhile is_digit r')),
                            dropWhile is_digit r')
                 else None
             | [] \<Rightarrow> None)
          else None
      | [] \<Rightarrow> None)"

definition pow10 :: "int \<Rightarrow> rat" where
  "pow10 e = (if 0 \<le> e then 10 ^ nat e else 1 / 10 ^ nat (- e))"

definition scan_number :: "string \<Rightarrow> (json \<times> string) option" where
  "scan_number s =
     (let neg = (s \<noteq> [] \<and> hd s = CHR ''-'');
          s1 = (if neg then tl s else s)
      in case scan_int_part s1 of
           None \<Rightarrow> None
         | Some (ds, r1) \<Rightarrow>
             let n = digits_val ds;
                 sgn = (if neg then - 1 else 1)
             in (case (scan_frac r1) of
                   None \<Rightarrow>
                     (case scan_exp r1 of
                        None \<Rightarrow> Some (JInt (sgn * int n), r1)
                      | Some (e, r3) \<Rightarrow> Some (JFloat (Num (of_int (sgn * int n) * pow10 e)), r3))
                 | Some (fs, r2) \<Rightarrow>
                     let m = of_int sgn * (of_nat n + of_nat (digits_val fs) / 10 ^ length fs)
                     in (case scan_exp r2 of
                           None \<Rightarrow> Some (JFloat (Num m), r2)
                         | Some (e, r3) \<Rightarrow> Some (JFloat (Num (m * pow10 e)), r3))))"

lemma scan_int_part_length: "scan_int_part s = Some (ds, r) \<Longrightarrow> length r < length s"
  by (auto simp: scan_int_part_def le_imp_less_Suc length_dropWhile_le
           split: list.splits if_splits)

lemma scan_frac_length: "scan_frac s = Some (ds, r) \<Longrightarrow> length r < length s"
  by (auto simp: scan_frac_def less_Suc_eq_le le_SucI length_dropWhile_le
           split: list.splits if_splits)

lemma scan_exp_length: "scan_exp s = Some (e, r) \<Longrightarrow> length r < length s"
proof -
  have a: "length (dropWhile is_digit xs) < Suc (length xs)" for xs
    by (simp add: le_imp_less_Suc length_dropWhile_le)
  have b: "length (dropWhile is_digit xs) < Suc (Suc (length xs))" for xs
    using a[of xs] by simp
  assume "scan_exp s = Some (e, r)"
  then show ?thesis
    using a b by (auto simp: scan_exp_def split: list.splits if_splits)
qed

lemma scan_number_length: "scan_number s = Some (v, r) \<Longrightarrow> length r < length s"
proof -
  assume h: "scan_number s = Some (v, r)"
  let ?s1 = "if s \<noteq> [] \<and> hd s = CHR ''-'' then tl s else s"
  have s1: "length ?s1 \<le> length s" by simp
  from h obtain ds r1 where i: "scan_int_part ?s1 = Some (ds, r1)"
    by (auto simp: scan_number_def Let_def split: option.splits)
  have r1: "length r1 < length s" using scan_int_part_length[OF i] s1 by linarith
  from h i have "r = r1 \<or> (\<exists>e. scan_exp r1 = Some (e, r))
      \<or> (\<exists>fs r2. scan_frac r1 = Some (fs, r2) \<and> (r = r2 \<or> (\<exists>e. scan_exp r2 = Some (e, r))))"
    by (auto simp: scan_number_def Let_def split: option.splits)
  then show ?thesis
    using r1 by (auto dest!: scan_exp_length scan_frac_length)
qed

text \<open>The tokens of a JSON text.\<close>

datatype token = TLBrace | TRBrace | TLBracket | TRBracket | TComma | TColon | TValue json

definition json_ws :: "char \<Rightarrow> bool" where
  "json_ws c \<longleftrightarrow> c = CHR '' '' \<or> c = CHR 0x09 \<or> c = CHR 0x0A \<or> c = CHR 0x0D"

text \<open>The constants \<open>null\<close>, \<open>true\<close>, \<open>false\<close>, \<open>NaN\<close>, \<open>Infinity\<close> and \<open>-Infinity\<close>.\<close>

definition scan_constant :: "string \<Rightarrow> (json \<times> string) option" where
  "scan_constant s =
     (if is_prefix ''null'' s then Some (JNull, drop 4 s)
      else if is_prefix ''true'' s then Some (JBool True, drop 4 s)
      else if is_prefix ''false'' s then Some (JBool False, drop 5 s)
      else if is_prefix ''NaN'' s then Some (JFloat NaN, drop 3 s)
      else if is_prefix ''Infinity'' s then Some (JFloat PosInf, drop 8 s)
      else if is_prefix ''-Infinity'' s then Some (JFloat NegInf, drop 9 s)
      else None)"

lemma is_prefix_length: "is_prefix p s \<Longrightarrow> length p \<le> length s"
  by (induction p s rule: is_prefix.induct) auto

lemma scan_constant_length:
  assumes "scan_constant s = Some (v, rest)"
  shows "length rest < length s"
proof -
  from assms consider
      "is_prefix ''null'' s" "rest = drop 4 s"
    | "is_prefix ''true'' s" "rest = drop 4 s"
    | "is_prefix ''false'' s" "rest = drop 5 s"
    | "is_prefix ''NaN'' s" "rest = drop 3 s"
    | "is_prefix ''Infinity'' s" "rest = drop 8 s"
    | "is_prefix ''-Infinity'' s" "rest = drop 9 s"
    unfolding scan_constant_def by (auto simp del: is_prefix.simps split: if_splits)
  then show ?thesis
  proof cases
    case 1
    with is_prefix_length[of "''null''" s] show ?thesis by simp
  next
    case 2
    with is_prefix_length[of "''true''" s] show ?thesis by simp
  next
    case 3
    with is_prefix_length[of "''false''" s] show ?thesis by simp
  next
    case 4
    with is_prefix_length[of "''NaN''" s] show ?thesis by simp
  next
    case 5
    with is_prefix_length[of "''Infinity''" s] show ?thesis by simp
  next
    case 6
    with is_prefix_length[of "''-Infinity''" s] show ?thesis by simp
  qed
qed

text \<open>The token at the head of an input that does not start with whitespace.\<close>

definition next_token :: "string \<Rightarrow> (token \<times> string) option" where
  "next_token s =
     (case s of
        [] \<Rightarrow> None
      | c # cs \<Rightarrow>
          if c = CHR ''{'' then Some (TLBrace, cs)
          else if c = CHR ''}'' then Some (TRBrace, cs)
          else if c = CHR ''['' then Some (TLBracket, cs)
          else if c = CHR '']'' then Some (TRBracket, cs)
          else if c = CHR '','' then Some (TComma, cs)
          else if c = CHR '':'' then Some (TColon, cs)
          else if c = CHR 0x22 then
            (case scan_string cs of None \<Rightarrow> None | Some (v, rest) \<Rightarrow> Some (TValue (JStr v), rest))
          else (case scan_constant s of
                  Some (v, rest) \<Rightarrow> Some (TValue v, rest)
                | None \<Rightarrow>
                    (case scan_number s of
                       None \<Rightarrow> None
                     | Some (v, rest) \<Rightarrow> Some (TValue v, rest))))"

lemma next_token_length:
  assumes "next_token s = Some (t, rest)"
  shows "length rest < length s"
proof (cases s)
  case Nil
  with assms show ?thesis by (simp add: next_token_def)
next
  case (Cons c cs)
  from assms consider "rest = cs" | "\<exists>v. scan_string cs = Some (v, rest)"
    | "\<exists>v. scan_constant s = Some (v, rest)" | "\<exists>v. scan_number s = Some (v, rest)"
    unfolding next_token_def Cons list.case
    by (auto split: if_splits option.splits)
  then show ?thesis
  proof cases
    case 1
    with Cons show ?thesis by simp
  next
    case 2
    with Cons scan_string_length show ?thesis by fastforce
  next
    case 3
    with scan_constant_length show ?thesis by blast
  next
    case 4
    with scan_number_length show ?thesis by blast
  qed
qed

function lex :: "string \<Rightarrow> token list option" where
  "lex [] = Some []"
| "lex (c # cs) =
     (if json_ws c then lex cs
      else (case next_token (c # cs) of
              None \<Rightarrow> None
            | Some (t, rest) \<Rightarrow> (case lex rest of None \<Rightarrow> None | Some ts \<Rightarrow> Some (t # ts))))"
  by pat_completeness auto
termination
  by (relation "measure length") (auto dest: next_token_length)

text \<open>
  The parser is a pushdown automaton over the tokens. A frame of the stack is an open
  array with its elements so far (last first), an open object with its members so far,
  or an open object with the key whose value is being read.
\<close>

datatype frame = FArr "json list" | FObj "(string \<times> json) list" | FKey "(string \<times> json) list" string

datatype pstate =
    PValue      \<comment> \<open>a value must come\<close>
  | PArrFirst   \<comment> \<open>after \<open>[\<close>: a value or \<open>]\<close>\<close>
  | PObjFirst   \<comment> \<open>after \<open>{\<close>: a key or \<open>}\<close>\<close>
  | PObjKey     \<comment> \<open>after a comma in an object: a key\<close>
  | PColon      \<comment> \<open>after a key: a colon\<close>
  | PAfter      \<comment> \<open>after a value in an array or object: a comma or the closing bracket\<close>
  | PDone json  \<comment> \<open>the whole value is read\<close>

text \<open>A value is complete: it goes into the enclosing frame. A repeated key keeps its
  first place and takes the last value, as a Python dict does.\<close>

fun after_value :: "json \<Rightarrow> frame list \<Rightarrow> (pstate \<times> frame list) option" where
  "after_value v [] = Some (PDone v, [])"
| "after_value v (FArr es # st) = Some (PAfter, FArr (v # es) # st)"
| "after_value v (FKey kvs k # st) = Some (PAfter, FObj (AList.update k v kvs) # st)"
| "after_value v (FObj kvs # st) = None"

definition start_value :: "token \<Rightarrow> frame list \<Rightarrow> (pstate \<times> frame list) option" where
  "start_value t st =
     (case t of
        TValue v \<Rightarrow> after_value v st
      | TLBracket \<Rightarrow> Some (PArrFirst, FArr [] # st)
      | TLBrace \<Rightarrow> Some (PObjFirst, FObj [] # st)
      | _ \<Rightarrow> None)"

definition read_key :: "token \<Rightarrow> frame list \<Rightarrow> (pstate \<times> frame list) option" where
  "read_key t st =
     (case (t, st) of
        (TValue (JStr k), FObj kvs # st') \<Rightarrow> Some (PColon, FKey kvs k # st')
      | _ \<Rightarrow> None)"

fun pstep :: "pstate \<times> frame list \<Rightarrow> token \<Rightarrow> (pstate \<times> frame list) option" where
  "pstep (PValue, st) t = start_value t st"
| "pstep (PArrFirst, st) t =
     (if t = TRBracket then after_value (JArr []) (tl st) else start_value t st)"
| "pstep (PObjFirst, st) t =
     (if t = TRBrace then after_value (JObj []) (tl st) else read_key t st)"
| "pstep (PObjKey, st) t = read_key t st"
| "pstep (PColon, st) t = (if t = TColon then Some (PValue, st) else None)"
| "pstep (PAfter, st) t =
     (case (st, t) of
        (FArr es # st', TComma) \<Rightarrow> Some (PValue, st)
      | (FArr es # st', TRBracket) \<Rightarrow> after_value (JArr (rev es)) st'
      | (FObj kvs # st', TComma) \<Rightarrow> Some (PObjKey, st)
      | (FObj kvs # st', TRBrace) \<Rightarrow> after_value (JObj kvs) st'
      | _ \<Rightarrow> None)"
| "pstep (PDone v, st) t = None"

fun run_tokens :: "pstate \<times> frame list \<Rightarrow> token list \<Rightarrow> (pstate \<times> frame list) option" where
  "run_tokens c [] = Some c"
| "run_tokens c (t # ts) = (case pstep c t of None \<Rightarrow> None | Some c' \<Rightarrow> run_tokens c' ts)"

text \<open>\<open>json.loads(s)\<close>: the value, or \<open>None\<close> where Python raises \<open>JSONDecodeError\<close>.\<close>

definition json_loads :: "string \<Rightarrow> json option" where
  "json_loads s =
     (case lex s of
        None \<Rightarrow> None
      | Some ts \<Rightarrow>
          (case run_tokens (PValue, []) ts of
             Some (PDone v, _) \<Rightarrow> Some v
           | _ \<Rightarrow> None))"

section \<open>The response parser: \<open>parse_response\<close>\<close>

text \<open>
  \<open>re.search(r'\[[\s\S]*\]', response)\<close>: the text from the first \<open>[\<close> to the last
  \<open>]\<close> after it; no match when no \<open>]\<close> follows the first \<open>[\<close>.
\<close>

definition search_array :: "string \<Rightarrow> string option" where
  "search_array response =
     (case dropWhile (\<lambda>c. c \<noteq> CHR ''['') response of
        [] \<Rightarrow> None
      | b # after \<Rightarrow>
          (case rev (dropWhile (\<lambda>c. c \<noteq> CHR '']'') (rev after)) of
             [] \<Rightarrow> None
           | body \<Rightarrow> Some (b # body)))"

text \<open>\<open>json_text.replace("'", '"')\<close>.\<close>

definition replace_quotes :: "string \<Rightarrow> string" where
  "replace_quotes s = map (\<lambda>c. if c = CHR 0x27 then CHR 0x22 else c) s"

text \<open>
  \<open>re.sub(r',(\s*[}\]])', r'\1', json_text)\<close>: a comma followed, after any whitespace,
  by \<open>}\<close> or \<open>]\<close> is removed.
\<close>

definition closes_next :: "string \<Rightarrow> bool" where
  "closes_next s =
     (case dropWhile py_isspace s of [] \<Rightarrow> False | d # _ \<Rightarrow> d = CHR ''}'' \<or> d = CHR '']'')"

fun strip_trailing_commas :: "string \<Rightarrow> string" where
  "strip_trailing_commas [] = []"
| "strip_trailing_commas (c # cs) =
     (if c = CHR '','' \<and> closes_next cs then strip_trailing_commas cs
      else c # strip_trailing_commas cs)"

text \<open>
  \<open>parse_response(response)\<close> (lines 113-133), with \<open>DEBUG_MODE\<close> off. A dict is
  returned as a one-element list; any other value that parses is returned as it is.
\<close>

definition parse_response :: "string \<Rightarrow> json" where
  "parse_response response =
     (if response = [] then JArr []
      else case json_loads response of
             Some (JObj d) \<Rightarrow> JArr [JObj d]
           | Some parsed \<Rightarrow> parsed
           | None \<Rightarrow>
               (case search_array response of
                  None \<Rightarrow> JArr []
                | Some json_text \<Rightarrow>
                    (case json_loads (strip_trailing_commas (replace_quotes json_text)) of
                       Some parsed \<Rightarrow> parsed
                     | None \<Rightarrow> JArr [])))"

section \<open>The resume tracker: \<open>load_existing_output_safe\<close>\<close>

text \<open>
  \<open>re.findall(r'\{[^{}]*(?:\{[^{}]*\}[^{}]*)*\}', content)\<close>. Every run \<open>[^{}]*\<close> of the
  pattern is followed by a brace, so it takes all the characters up to the next brace
  and a match is found without backtracking: after the opening brace and a run come
  either the closing brace, or an inner \<open>{...}\<close> without braces inside and again a run.
\<close>

definition nonbrace :: "char \<Rightarrow> bool" where
  "nonbrace c \<longleftrightarrow> c \<noteq> CHR ''{'' \<and> c \<noteq> CHR ''}''"

text \<open>\<open>(?:\{[^{}]*\}[^{}]*)*\}\<close> at the head of the input: the text matched and the input left.\<close>

function match_groups :: "string \<Rightarrow> (string \<times> string) option" where
  "match_groups [] = None"
| "match_groups (c # r) =
     (if c = CHR ''}'' then Some ([c], r)
      else if c = CHR ''{'' then
        (case dropWhile nonbrace r of
           [] \<Rightarrow> None
         | d # r2 \<Rightarrow>
             if d = CHR ''}'' then
               (case match_groups (dropWhile nonbrace r2) of
                  None \<Rightarrow> None
                | Some (m, rest) \<Rightarrow>
                    Some (c # takeWhile nonbrace r @ d # takeWhile nonbrace r2 @ m, rest))
             else None)
      else None)"
  by pat_completeness auto
termination
proof (relation "measure length")
  show "wf (measure length)" by simp
next
  fix c :: char and r d r2
  assume "dropWhile nonbrace r = d # r2"
  then have "length (d # r2) \<le> length r"
    using length_dropWhile_le[of nonbrace r] by simp
  moreover have "length (dropWhile nonbrace r2) \<le> length r2"
    by (rule length_dropWhile_le)
  ultimately show "(dropWhile nonbrace r2, c # r) \<in> measure length" by simp
qed

lemma match_groups_length: "match_groups s = Some (m, rest) \<Longrightarrow> length rest < length s"
proof (induction s arbitrary: m rest rule: match_groups.induct)
  case 1
  then show ?case by simp
next
  case (2 c r)
  show ?case
  proof (cases "c = CHR ''}''")
    case True
    with 2 show ?thesis by simp
  next
    case False
    with "2.prems" obtain d r2 m' where c: "c = CHR ''{''" and d: "dropWhile nonbrace r = d # r2"
      and dc: "d = CHR ''}''" and m: "match_groups (dropWhile nonbrace r2) = Some (m', rest)"
      by (auto split: if_splits list.splits option.splits)
    have "length rest < length (dropWhile nonbrace r2)"
      using "2.IH"[OF False c d dc m] .
    moreover have "length (dropWhile nonbrace r2) \<le> length r2" by (rule length_dropWhile_le)
    moreover have "length (d # r2) \<le> length r"
      using length_dropWhile_le[of nonbrace r] d by simp
    ultimately show ?thesis by simp
  qed
qed

text \<open>The pattern at the head of the input.\<close>

definition match_object :: "string \<Rightarrow> (string \<times> string) option" where
  "match_object s =
     (case s of
        [] \<Rightarrow> None
      | c # r \<Rightarrow>
          if c = CHR ''{'' then
            (case match_groups (dropWhile nonbrace r) of
               None \<Rightarrow> None
             | Some (m, rest) \<Rightarrow> Some (c # takeWhile nonbrace r @ m, rest))
          else None)"

lemma match_object_length: "match_object s = Some (m, rest) \<Longrightarrow> length rest < length s"
proof -
  assume "match_object s = Some (m, rest)"
  then obtain c r m' where s: "s = c # r"
    and g: "match_groups (dropWhile nonbrace r) = Some (m', rest)"
    by (auto simp: match_object_def split: list.splits if_splits option.splits)
  have "length rest < length (dropWhile nonbrace r)" using match_groups_length[OF g] .
  moreover have "length (dropWhile nonbrace r) \<le> length r" by (rule length_dropWhile_le)
  ultimately show ?thesis using s by simp
qed

text \<open>All matches, left to right, each search starting where the last match ended.\<close>

function find_objects :: "string \<Rightarrow> string list" where
  "find_objects [] = []"
| "find_objects (c # cs) =
     (case match_object (c # cs) of
        None \<Rightarrow> find_objects cs
      | Some (m, rest) \<Rightarrow> m # find_objects rest)"
  by pat_completeness auto
termination
  by (relation "measure length") (auto dest: match_object_length)

text \<open>
  The body of the loops over the recovered records (lines 371-376, 388-393, 407-412).
  \<open>idx >= 0\<close> raises \<open>TypeError\<close> when the index is not a number; \<open>True\<close> and \<open>False\<close>
  count as 1 and 0. The completion set holds Python numbers, where \<open>1 == 1.0\<close>.
\<close>

definition add_index :: "(string \<times> json) list \<Rightarrow> pynum set \<Rightarrow> error + pynum set" where
  "add_index obj processed_indices =
     (case dict_get obj ''index'' of
        None \<Rightarrow> Inr processed_indices
      | Some (JInt n) \<Rightarrow>
          Inr (if 0 \<le> n then insert (Num (of_int n)) processed_indices else processed_indices)
      | Some (JBool b) \<Rightarrow> Inr (insert (Num (if b then 1 else 0)) processed_indices)
      | Some (JFloat (Num x)) \<Rightarrow>
          Inr (if 0 \<le> x then insert (Num x) processed_indices else processed_indices)
      | Some (JFloat PosInf) \<Rightarrow> Inr (insert PosInf processed_indices)
      | Some (JFloat NegInf) \<Rightarrow> Inr processed_indices
      | Some (JFloat NaN) \<Rightarrow> Inr processed_indices
      | Some _ \<Rightarrow> Inl TypeError)"

text \<open>
  \<open>for c in obj.get("characters", [])\<close>: the elements of a list, the characters of a
  string, the keys of a dict; any other value is not iterable. Every \<open>str\<close> met is added.
\<close>

definition strings_of :: "json list \<Rightarrow> string list" where
  "strings_of cs = List.map_filter (\<lambda>c. case c of JStr s \<Rightarrow> Some s | _ \<Rightarrow> None) cs"

definition add_characters :: "(string \<times> json) list \<Rightarrow> string set \<Rightarrow> error + string set" where
  "add_characters obj mentioned =
     (case dict_get obj ''characters'' of
        None \<Rightarrow> Inr mentioned
      | Some (JArr cs) \<Rightarrow> Inr (mentioned \<union> set (strings_of cs))
      | Some (JStr s) \<Rightarrow> Inr (mentioned \<union> set (map (\<lambda>c. [c]) s))
      | Some (JObj d) \<Rightarrow> Inr (mentioned \<union> set (map fst d))
      | Some _ \<Rightarrow> Inl TypeError)"

text \<open>
  The state of the tracker is \<open>processed_indices\<close> and \<open>mentioned_characters\<close>. A step
  returns the state it reached and the exception it raised, if any: both sets are
  mutated in place, so what was added before the exception stays.
\<close>

type_synonym tracker = "pynum set \<times> string set"

definition absorb_dict :: "(string \<times> json) list \<Rightarrow> tracker \<Rightarrow> tracker \<times> error option" where
  "absorb_dict obj t =
     (case add_index obj (fst t) of
        Inl e \<Rightarrow> (t, Some e)
      | Inr p \<Rightarrow>
          (case add_characters obj (snd t) of
             Inl e \<Rightarrow> ((p, snd t), Some e)
           | Inr m \<Rightarrow> ((p, m), None)))"

text \<open>An element of the parsed list: only a dict is looked at.\<close>

definition absorb :: "json \<Rightarrow> tracker \<Rightarrow> tracker \<times> error option" where
  "absorb v t = (case v of JObj obj \<Rightarrow> absorb_dict obj t | _ \<Rightarrow> (t, None))"

fun absorb_all :: "json list \<Rightarrow> tracker \<Rightarrow> tracker \<times> error option" where
  "absorb_all [] t = (t, None)"
| "absorb_all (v # vs) t =
     (case absorb v t of
        (t', Some e) \<Rightarrow> (t', Some e)
      | (t', None) \<Rightarrow> absorb_all vs t')"

text \<open>
  A fragment found by the pattern (lines 404-414): one that does not parse is passed
  over. \<open>obj.get\<close> is called on whatever was parsed.
\<close>

definition absorb_fragment :: "string \<Rightarrow> tracker \<Rightarrow> tracker \<times> error option" where
  "absorb_fragment m t =
     (case json_loads m of
        None \<Rightarrow> (t, None)
      | Some (JObj obj) \<Rightarrow> absorb_dict obj t
      | Some _ \<Rightarrow> (t, Some AttributeError))"

fun absorb_fragments :: "string list \<Rightarrow> tracker \<Rightarrow> tracker \<times> error option" where
  "absorb_fragments [] t = (t, None)"
| "absorb_fragments (m # ms) t =
     (case absorb_fragment m t of
        (t', Some e) \<Rightarrow> (t', Some e)
      | (t', None) \<Rightarrow> absorb_fragments ms t')"

text \<open>The three rungs. The first two read a list; a value that is not a list is left
  to the next rung.\<close>

definition rung1 :: "string \<Rightarrow> json list option" where
  "rung1 content = (case json_loads content of Some (JArr data) \<Rightarrow> Some data | _ \<Rightarrow> None)"

definition content_wrapped :: "string \<Rightarrow> string" where
  "content_wrapped content = ''['' @ rstrip (rstrip_comma content) @ '']''"

definition rung2 :: "string \<Rightarrow> json list option" where
  "rung2 content =
     (case json_loads (content_wrapped content) of Some (JArr data) \<Rightarrow> Some data | _ \<Rightarrow> None)"

text \<open>The list read by the first rung or else by the second.\<close>

definition read_list :: "string \<Rightarrow> json list option" where
  "read_list content = (case rung1 content of Some data \<Rightarrow> Some data | None \<Rightarrow> rung2 content)"

text \<open>
  The statements of the outer \<open>try\<close> (lines 360-420) on the text read from the file:
  the state reached, and the exception that leaves the block, if any.
\<close>

definition load_body :: "string \<Rightarrow> string set \<Rightarrow> tracker \<times> error option" where
  "load_body raw mentioned =
     (let content = strip raw in
      if content = [] then (({}, mentioned), None)
      else case read_list content of
             Some data \<Rightarrow> absorb_all data ({}, mentioned)
           | None \<Rightarrow> absorb_fragments (find_objects content) ({}, mentioned))"

text \<open>
  \<open>load_existing_output_safe()\<close>, with the file (\<open>None\<close> when it does not exist) and the
  global \<open>mentioned_characters\<close> passed in. \<open>except Exception\<close> (line 422) catches each
  of the exceptions above, and the set built so far is returned.
\<close>

definition load_existing_output_safe ::
  "string option \<Rightarrow> string set \<Rightarrow> (error + pynum set) \<times> string set" where
  "load_existing_output_safe file mentioned =
     (case file of
        None \<Rightarrow> (Inr {}, mentioned)
      | Some raw \<Rightarrow>
          (case load_body raw mentioned of
             ((processed_indices, m), None) \<Rightarrow> (Inr processed_indices, m)
           | ((processed_indices, m), Some TypeError) \<Rightarrow> (Inr processed_indices, m)
           | ((processed_indices, m), Some JSONDecodeError) \<Rightarrow> (Inr processed_indices, m)
           | ((processed_indices, m), Some AttributeError) \<Rightarrow> (Inr processed_indices, m)))"

section \<open>The writer: \<open>write_batch_results\<close>\<close>

text \<open>
  \<open>json.dumps(obj, ensure_ascii=False, indent=2)\<close> on a record of the validator: an
  integer, three strings, two lists of strings and a dict of strings.
\<close>

definition digit_char :: "nat \<Rightarrow> char" where
  "digit_char d = char_of (48 + d)"

function show_nat :: "nat \<Rightarrow> string" where
  "show_nat n = (if n < 10 then [digit_char n] else show_nat (n div 10) @ [digit_char (n mod 10)])"
  by pat_completeness auto
termination
  by (relation "measure id") auto

declare show_nat.simps [simp del]

definition show_int :: "int \<Rightarrow> string" where
  "show_int i = (if i < 0 then ''-'' @ show_nat (nat (- i)) else show_nat (nat i))"

definition hex_char :: "nat \<Rightarrow> char" where
  "hex_char d = (if d < 10 then char_of (48 + d) else char_of (87 + d))"

text \<open>The escapes of a string: the quote, the backslash and the control characters.\<close>

definition escape_char :: "char \<Rightarrow> string" where
  "escape_char c =
     (if c = CHR 0x22 then [CHR 0x5C, CHR 0x22]
      else if c = CHR 0x5C then [CHR 0x5C, CHR 0x5C]
      else if c = CHR 0x0A then [CHR 0x5C, CHR ''n'']
      else if c = CHR 0x0D then [CHR 0x5C, CHR ''r'']
      else if c = CHR 0x09 then [CHR 0x5C, CHR ''t'']
      else if c = CHR 0x08 then [CHR 0x5C, CHR ''b'']
      else if c = CHR 0x0C then [CHR 0x5C, CHR ''f'']
      else if c < CHR 0x20
      then [CHR 0x5C, CHR ''u'', CHR ''0'', CHR ''0'',
            hex_char (of_char c div 16), hex_char (of_char c mod 16)]
      else [c])"

definition dumps_str :: "string \<Rightarrow> string" where
  "dumps_str s = [CHR 0x22] @ concat (map escape_char s) @ [CHR 0x22]"

definition dumps_list :: "string list \<Rightarrow> string" where
  "dumps_list xs =
     (if xs = [] then ''[]''
      else ''['' @ [CHR 0x0A] @ ''    ''
           @ join ('','' @ [CHR 0x0A] @ ''    '') (map dumps_str xs)
           @ [CHR 0x0A] @ ''  ]'')"

definition dumps_dict :: "(string \<times> string) list \<Rightarrow> string" where
  "dumps_dict d =
     (if d = [] then ''{}''
      else ''{'' @ [CHR 0x0A] @ ''    ''
           @ join ('','' @ [CHR 0x0A] @ ''    '')
               (map (\<lambda>(k, v). dumps_str k @ '': '' @ dumps_str v) d)
           @ [CHR 0x0A] @ ''  }'')"

definition json_dumps :: "rec \<Rightarrow> string" where
  "json_dumps obj =
     ''{'' @ [CHR 0x0A]
     @ ''  '' @ dumps_str ''index'' @ '': '' @ show_int (r_index obj) @ '','' @ [CHR 0x0A]
     @ ''  '' @ dumps_str ''text'' @ '': '' @ dumps_str (r_text obj) @ '','' @ [CHR 0x0A]
     @ ''  '' @ dumps_str ''characters'' @ '': '' @ dumps_list (r_characters obj) @ '','' @ [CHR 0x0A]
     @ ''  '' @ dumps_str ''entities'' @ '': '' @ dumps_list (r_entities obj) @ '','' @ [CHR 0x0A]
     @ ''  '' @ dumps_str ''coref'' @ '': '' @ dumps_dict (r_coref obj) @ '','' @ [CHR 0x0A]
     @ ''  '' @ dumps_str ''speaker'' @ '': '' @ dumps_str (r_speaker obj) @ [CHR 0x0A]
     @ ''}''"

text \<open>
  \<open>write_batch_results(batch_results, processed_indices)\<close> (lines 427-436). The file is
  open for appending: \<open>outfile\<close> is the list of the records written to it so far, and
  \<open>store_text\<close> is the text they add to the file, each record as \<open>json.dumps\<close> prints it,
  followed by a comma and a newline. Every record of the validator has an integer index.
\<close>

fun write_batch_results :: "rec list \<Rightarrow> rec list \<times> pynum set \<Rightarrow> rec list \<times> pynum set" where
  "write_batch_results [] (outfile, processed_indices) = (outfile, processed_indices)"
| "write_batch_results (obj # batch_results) (outfile, processed_indices) =
     (if Num (of_int (r_index obj)) \<notin> processed_indices \<and> 0 \<le> r_index obj
      then write_batch_results batch_results
             (outfile @ [obj], insert (Num (of_int (r_index obj))) processed_indices)
      else write_batch_results batch_results (outfile, processed_indices))"

definition store_text :: "rec list \<Rightarrow> string" where
  "store_text rs = concat (map (\<lambda>obj. json_dumps obj @ '','' @ [CHR 0x0A]) rs)"

section \<open>The extraction client: \<open>process_batch\<close>\<close>

definition MAX_RETRIES :: nat where
  "MAX_RETRIES = 2"

text \<open>
  The retry loop (lines 317-326). \<open>query_ollama\<close> is the external generation: \<open>query k\<close>
  is what its call number \<open>k\<close> returns (\<open>None\<close> after a timeout or a failed command). The
  loop leaves the last value of \<open>parsed\<close> (\<open>None\<close>, here \<open>JNull\<close>, before the first
  response) and the number of calls made.
\<close>

fun retry_loop :: "(nat \<Rightarrow> string option) \<Rightarrow> nat \<Rightarrow> nat \<Rightarrow> json \<Rightarrow> json \<times> nat" where
  "retry_loop query 0 calls parsed = (parsed, calls)"
| "retry_loop query (Suc attempts) calls parsed =
     (case query calls of
        None \<Rightarrow> retry_loop query attempts (Suc calls) parsed
      | Some response \<Rightarrow>
          if response = [] then retry_loop query attempts (Suc calls) parsed
          else if truthy (parse_response response) then (parse_response response, Suc calls)
          else retry_loop query attempts (Suc calls) (parse_response response))"

text \<open>
  \<open>process_batch\<close> (lines 294-347) with the globals \<open>stop_processing\<close> and
  \<open>mentioned_characters\<close> passed in: the records (\<open>None\<close> for the Python \<open>None\<close>), the
  number of calls of \<open>query_ollama\<close>, and the mentioned characters afterwards.
  \<open>batch_sentences\<close> is the list of strings that \<open>main\<close> builds, which the flattening of
  lines 302-311 leaves as it is.
\<close>

definition process_batch ::
  "(json \<Rightarrow> string) \<Rightarrow> bool \<Rightarrow> (nat \<Rightarrow> string option) \<Rightarrow> string set \<Rightarrow> string list \<Rightarrow> int
     \<Rightarrow> (rec list option \<times> nat) \<times> string set" where
  "process_batch str_of stop_processing query mentioned batch_sentences batch_start_idx =
     (if stop_processing then ((None, 0), mentioned)
      else if batch_sentences = [] then ((None, 0), mentioned)
      else case retry_loop query MAX_RETRIES 0 JNull of
        (parsed, calls) \<Rightarrow>
          if \<not> truthy parsed then ((None, calls), mentioned)
          else (case clean_and_validate str_of mentioned parsed batch_sentences batch_start_idx of
                  (Inl e, m) \<Rightarrow> ((None, calls), m)
                | (Inr cleaned, m) \<Rightarrow>
                    if cleaned = [] then ((None, calls), m) else ((Some cleaned, calls), m)))"

section \<open>The orchestrator: \<open>main\<close>\<close>

definition BATCH_SIZE :: nat where
  "BATCH_SIZE = 4"

text \<open>The sentences whose position is not in the completion set (lines 453-457).\<close>

definition sentences_to_process :: "string list \<Rightarrow> pynum set \<Rightarrow> (nat \<times> string) list" where
  "sentences_to_process sentences processed_indices =
     filter (\<lambda>(idx, sentence). Num (of_nat idx) \<notin> processed_indices) (enumerate 0 sentences)"

text \<open>
  The batching loop (lines 469-480) on \<open>batches\<close>, \<open>current_batch_sentences\<close> and
  \<open>current_batch_indices\<close>. A batch is its sentences and the first of its indices.
\<close>

fun batch_loop ::
  "(nat \<times> string) list \<Rightarrow> (string list \<times> nat) list \<times> string list \<times> nat list
     \<Rightarrow> (string list \<times> nat) list \<times> string list \<times> nat list" where
  "batch_loop [] st = st"
| "batch_loop ((idx, sentence) # rest) (batches, current_batch_sentences, current_batch_indices) =
     (if length (current_batch_sentences @ [sentence]) = BATCH_SIZE
      then batch_loop rest
             (batches @ [(current_batch_sentences @ [sentence],
                          hd (current_batch_indices @ [idx]))], [], [])
      else batch_loop rest
             (batches, current_batch_sentences @ [sentence], current_batch_indices @ [idx]))"

definition make_batches :: "(nat \<times> string) list \<Rightarrow> (string list \<times> nat) list" where
  "make_batches todo =
     (case batch_loop todo ([], [], []) of
        (batches, current_batch_sentences, current_batch_indices) \<Rightarrow>
          if current_batch_sentences \<noteq> []
          then batches @ [(current_batch_sentences, hd current_batch_indices)]
          else batches)"

text \<open>
  What \<open>main\<close> does with the result of a batch (lines 500-502): a non-empty list of
  records goes to the writer.
\<close>

definition drain :: "rec list option \<Rightarrow> rec list \<times> pynum set \<Rightarrow> rec list \<times> pynum set" where
  "drain cleaned st =
     (case cleaned of
        None \<Rightarrow> st
      | Some rs \<Rightarrow> if rs = [] then st else write_batch_results rs st)"

text \<open>The loop of \<open>main\<close> over the finished batches (lines 497-502), \<open>stop_processing\<close>
  not set.\<close>

fun drain_all ::
  "rec list option list \<Rightarrow> rec list \<times> pynum set \<Rightarrow> rec list \<times> pynum set" where
  "drain_all [] st = st"
| "drain_all (cleaned # rest) st = drain_all rest (drain cleaned st)"

text \<open>
  One run of \<open>main\<close> as the store sees it (lines 440 and 497-502): the completion set
  is recovered from the text of the store, with no character mentioned yet, and the
  records that the writer accepts are appended to that text. \<open>results\<close> are the results
  of the batches in the order in which \<open>main\<close> receives them, \<open>None\<close> for a batch that
  gave nothing or raised. An absent store and an empty one are read alike.
\<close>

definition main_run :: "rec list option list \<Rightarrow> string \<Rightarrow> string" where
  "main_run results store =
     (case fst (load_existing_output_safe (Some store) {}) of
        Inl e \<Rightarrow> store
      | Inr processed_indices \<Rightarrow>
          store @ store_text (fst (drain_all results ([], processed_indices))))"

section \<open>The tokens and the value of a written record\<close>

text \<open>
  These notions serve the proof that the tracker reads back what the writer wrote:
  the tokens of the text that \<open>json.dumps\<close> prints for a record, and the value that
  \<open>json.loads\<close> builds from them.
\<close>

fun item_tokens :: "token list list \<Rightarrow> token list" where
  "item_tokens [] = []"
| "item_tokens [x] = x"
| "item_tokens (x # y # ys) = x @ TComma # item_tokens (y # ys)"

definition list_tokens :: "string list \<Rightarrow> token list" where
  "list_tokens xs = TLBracket # item_tokens (map (\<lambda>x. [TValue (JStr x)]) xs) @ [TRBracket]"

definition dict_tokens :: "(string \<times> string) list \<Rightarrow> token list" where
  "dict_tokens d =
     TLBrace # item_tokens (map (\<lambda>(k, v). [TValue (JStr k), TColon, TValue (JStr v)]) d)
       @ [TRBrace]"

definition rec_tokens :: "rec \<Rightarrow> token list" where
  "rec_tokens r =
     [TLBrace, TValue (JStr ''index''), TColon, TValue (JInt (r_index r)), TComma,
      TValue (JStr ''text''), TColon, TValue (JStr (r_text r)), TComma,
      TValue (JStr ''characters''), TColon] @ list_tokens (r_characters r)
     @ [TComma, TValue (JStr ''entities''), TColon] @ list_tokens (r_entities r)
     @ [TComma, TValue (JStr ''coref''), TColon] @ dict_tokens (r_coref r)
     @ [TComma, TValue (JStr ''speaker''), TColon, TValue (JStr (r_speaker r)), TRBrace]"

definition tcons :: "token list \<Rightarrow> token list option \<Rightarrow> token list option" where
  "tcons ts r = (case r of None \<Rightarrow> None | Some us \<Rightarrow> Some (ts @ us))"

definition dict_json :: "(string \<times> string) list \<Rightarrow> (string \<times> json) list" where
  "dict_json d = foldl (\<lambda>kvs (k, v). AList.update k (JStr v) kvs) [] d"

definition rec_json :: "rec \<Rightarrow> json" where
  "rec_json r =
     JObj [(''index'', JInt (r_index r)), (''text'', JStr (r_text r)),
           (''characters'', JArr (map JStr (r_characters r))),
           (''entities'', JArr (map JStr (r_entities r))),
           (''coref'', JObj (dict_json (r_coref r))),
           (''speaker'', JStr (r_speaker r))]"

text \<open>What the automaton does after a whole value, if the value can stand there.\<close>

definition then_run ::
  "(pstate \<times> frame list) option \<Rightarrow> token list \<Rightarrow> (pstate \<times> frame list) option" where
  "then_run c ts = (case c of None \<Rightarrow> None | Some c' \<Rightarrow> run_tokens c' ts)"

text \<open>The text of the store without its last comma and newline.\<close>

fun store_body :: "rec list \<Rightarrow> string" where
  "store_body [] = []"
| "store_body [r] = json_dumps r"
| "store_body (r # r' # rs) = json_dumps r @ '','' @ [CHR 0x0A] @ store_body (r' # rs)"

section \<open>Properties of the validator\<close>

lemma set_append_missing: "set (foldl append_missing es cs) = set es \<union> set cs"
  by (induction cs arbitrary: es) (auto simp: append_missing_def)

lemma validate_obj_subset:
  "validate_obj sf fb os b i v = Some r \<Longrightarrow> set (r_characters r) \<subseteq> set (r_entities r)"
  by (auto simp: validate_obj_def Let_def valid_entities_def set_append_missing
           split: json.splits if_splits prod.splits)

lemma lower_Narrator: "lower ''Narrator'' \<notin> PRONOUNS"
  by (simp add: lower_def lower_char_def isupper_def PRONOUNS_def)

lemma final_speaker_sound: "final_speaker s \<noteq> [] \<and> lower (final_speaker s) \<notin> PRONOUNS"
  using lower_Narrator by (simp add: final_speaker_def)

lemma validate_obj_speaker:
  "validate_obj sf fb os b i v = Some r \<Longrightarrow>
   r_speaker r \<noteq> [] \<and> lower (r_speaker r) \<notin> PRONOUNS"
  using final_speaker_sound
  by (auto simp: validate_obj_def Let_def split: json.splits if_splits prod.splits)

text \<open>Every record of the loop is the record of one element, at that element's offset.\<close>

lemma validate_loop_nth:
  "r \<in> set (fst (validate_loop sf fb os b i vs M)) \<Longrightarrow>
   \<exists>k < length vs. validate_obj sf fb os b (i + k) (vs ! k) = Some r"
proof (induction vs arbitrary: i M)
  case Nil
  then show ?case by simp
next
  case (Cons v vs)
  have later: "\<exists>k < length (v # vs). validate_obj sf fb os b (i + k) ((v # vs) ! k) = Some r"
    if "r \<in> set (fst (validate_loop sf fb os b (Suc i) vs M'))" for M'
  proof -
    from Cons.IH[OF that] obtain k where "k < length vs"
      "validate_obj sf fb os b (Suc i + k) (vs ! k) = Some r" by blast
    then have "Suc k < length (v # vs) \<and>
        validate_obj sf fb os b (i + Suc k) ((v # vs) ! Suc k) = Some r"
      by simp
    then show ?thesis by blast
  qed
  show ?case
  proof (cases "validate_obj sf fb os b i v")
    case None
    with Cons.prems have "r \<in> set (fst (validate_loop sf fb os b (Suc i) vs M))" by simp
    then show ?thesis by (rule later)
  next
    case (Some r')
    with Cons.prems consider "r = r'"
      | "r \<in> set (fst (validate_loop sf fb os b (Suc i) vs (M \<union> set (r_characters r'))))"
      by (auto split: prod.splits)
    then show ?thesis
    proof cases
      case 1
      with Some have "0 < length (v # vs) \<and>
          validate_obj sf fb os b (i + 0) ((v # vs) ! 0) = Some r" by simp
      then show ?thesis by blast
    next
      case 2
      then show ?thesis by (rule later)
    qed
  qed
qed

lemma clean_and_validate_nth:
  assumes "clean_and_validate sf M parsed os b = (Inr rs, M')" and "r \<in> set rs"
  shows "\<exists>vs k. parsed = JArr vs \<and> k < length vs \<and>
           validate_obj sf (pov_char_fallback M) os b k (vs ! k) = Some r"
proof -
  from assms obtain vs where p: "parsed = JArr vs"
    by (auto simp: clean_and_validate_def split: json.splits prod.splits)
  with assms have "r \<in> set (fst (validate_loop sf (pov_char_fallback M) os b 0 vs M))"
    by (auto simp: clean_and_validate_def split: prod.splits)
  from validate_loop_nth[OF this] p show ?thesis by auto
qed

text \<open>
  C8. In every record that \<open>clean_and_validate\<close> returns, each accepted character is also
  among the entities: the characters are a subset of the entities.
\<close>

theorem characters_subset_entities:
  assumes "clean_and_validate str_of mentioned parsed original_sentences base_index
             = (Inr rs, mentioned')"
    and "r \<in> set rs"
  shows "set (r_characters r) \<subseteq> set (r_entities r)"
  using clean_and_validate_nth[OF assms] validate_obj_subset by blast

theorem characters_subset_entities_witness:
  "clean_and_validate (\<lambda>v. []) {}
     (JArr [JObj [(''text'', JStr ''Mary laughed.''), (''characters'', JArr [JStr ''Mary'']),
                  (''entities'', JArr [JStr ''laugh'']), (''speaker'', JStr ''Mary'')]])
     [''Mary laughed.''] 1
   = (Inr [\<lparr>r_index = 1, r_text = ''Mary laughed.'', r_characters = [''Mary''],
            r_entities = [''laugh'', ''Mary''], r_coref = [], r_speaker = ''Mary''\<rparr>],
      {''Mary''})
   \<and> set (r_characters \<lparr>r_index = 1, r_text = ''Mary laughed.'', r_characters = [''Mary''],
            r_entities = [''laugh'', ''Mary''], r_coref = [], r_speaker = ''Mary''\<rparr>)
     \<subseteq> set (r_entities \<lparr>r_index = 1, r_text = ''Mary laughed.'', r_characters = [''Mary''],
            r_entities = [''laugh'', ''Mary''], r_coref = [], r_speaker = ''Mary''\<rparr>)"
proof -
  have run: "clean_and_validate (\<lambda>v. []) {}
     (JArr [JObj [(''text'', JStr ''Mary laughed.''), (''characters'', JArr [JStr ''Mary'']),
                  (''entities'', JArr [JStr ''laugh'']), (''speaker'', JStr ''Mary'')]])
     [''Mary laughed.''] 1
   = (Inr [\<lparr>r_index = 1, r_text = ''Mary laughed.'', r_characters = [''Mary''],
            r_entities = [''laugh'', ''Mary''], r_coref = [], r_speaker = ''Mary''\<rparr>],
      {''Mary''})"
    by code_simp
  have mem: "\<lparr>r_index = 1, r_text = ''Mary laughed.'', r_characters = [''Mary''],
            r_entities = [''laugh'', ''Mary''], r_coref = [], r_speaker = ''Mary''\<rparr>
        \<in> set [\<lparr>r_index = 1, r_text = ''Mary laughed.'', r_characters = [''Mary''],
            r_entities = [''laugh'', ''Mary''], r_coref = [], r_speaker = ''Mary''\<rparr>]"
    by simp
  show ?thesis
    by (rule conjI[OF run characters_subset_entities[OF run mem]])
qed

text \<open>
  C7. In every record that \<open>clean_and_validate\<close> returns, the speaker is not empty and is
  not a pronoun, whatever its letter case: an empty or pronoun speaker was replaced by
  \<open>Narrator\<close>.
\<close>

theorem speaker_never_pronoun:
  assumes "clean_and_validate str_of mentioned parsed original_sentences base_index
             = (Inr rs, mentioned')"
    and "r \<in> set rs"
  shows "r_speaker r \<noteq> [] \<and> lower (r_speaker r) \<notin> PRONOUNS"
  using clean_and_validate_nth[OF assms] validate_obj_speaker by blast

theorem speaker_never_pronoun_witness:
  "clean_and_validate (\<lambda>v. []) {}
     (JArr [JObj [(''text'', JStr ''She ran.''), (''speaker'', JStr '' She '')]])
     [''She ran.''] 0
   = (Inr [\<lparr>r_index = 0, r_text = ''She ran.'', r_characters = [], r_entities = [],
            r_coref = [], r_speaker = ''Narrator''\<rparr>], {})
   \<and> r_speaker \<lparr>r_index = 0, r_text = ''She ran.'', r_characters = [], r_entities = [],
            r_coref = [], r_speaker = ''Narrator''\<rparr> \<noteq> []
   \<and> lower (r_speaker \<lparr>r_index = 0, r_text = ''She ran.'', r_characters = [],
            r_entities = [], r_coref = [], r_speaker = ''Narrator''\<rparr>) \<notin> PRONOUNS"
proof -
  have run: "clean_and_validate (\<lambda>v. []) {}
     (JArr [JObj [(''text'', JStr ''She ran.''), (''speaker'', JStr '' She '')]])
     [''She ran.''] 0
   = (Inr [\<lparr>r_index = 0, r_text = ''She ran.'', r_characters = [], r_entities = [],
            r_coref = [], r_speaker = ''Narrator''\<rparr>], {})"
    by code_simp
  have mem: "\<lparr>r_index = 0, r_text = ''She ran.'', r_characters = [], r_entities = [],
            r_coref = [], r_speaker = ''Narrator''\<rparr>
        \<in> set [\<lparr>r_index = 0, r_text = ''She ran.'', r_characters = [], r_entities = [],
            r_coref = [], r_speaker = ''Narrator''\<rparr>]"
    by simp
  show ?thesis
    by (rule conjI[OF run speaker_never_pronoun[OF run mem]])
qed

text \<open>
  C1. A coreference pair whose referent is \<open>Narrator\<close> is not removed: for the raw record
  \<open>{"text": "He ran.", "coref": {"he": "Narrator"}}\<close> the record returned maps \<open>he\<close> to
  \<open>Narrator\<close>.
\<close>

theorem coref_keeps_narrator:
  "clean_and_validate (\<lambda>v. []) {}
     (JArr [JObj [(''text'', JStr ''He ran.''), (''coref'', JObj [(''he'', JStr ''Narrator'')])]])
     [''He ran.''] 0
   = (Inr [\<lparr>r_index = 0, r_text = ''He ran.'', r_characters = [], r_entities = [],
            r_coref = [(''he'', ''Narrator'')], r_speaker = ''Narrator''\<rparr>], {})"
  by code_simp

text \<open>
  The first-person entries filled in after the filter take the point-of-view name as it
  is: with the pronoun \<open>he\<close> among the mentioned characters, \<open>i\<close> is mapped to \<open>he\<close>.
\<close>

lemma coref_backfill_pronoun:
  "clean_and_validate (\<lambda>v. []) {''he''}
     (JArr [JObj [(''text'', JStr ''I ran.'')]])
     [''I ran.''] 0
   = (Inr [\<lparr>r_index = 0, r_text = ''I ran.'', r_characters = [], r_entities = [],
            r_coref = [(''i'', ''he'')], r_speaker = ''Narrator''\<rparr>], {''he''})"
  by code_simp

text \<open>What the filter itself keeps is never a pronoun: a name of two characters or more
  that starts with a capital letter.\<close>

lemma coref_step_sound:
  assumes "\<forall>v \<in> snd ` set fixed_coref. lower v \<notin> PRONOUNS \<and> 1 < length v \<and> isupper (hd v)"
  shows "\<forall>v \<in> snd ` set (coref_step str_of fixed_coref item).
           lower v \<notin> PRONOUNS \<and> 1 < length v \<and> isupper (hd v)"
proof -
  have upd: "snd ` set (AList.update k x al) \<subseteq> insert x (snd ` set al)" for k x
    and al :: "(string \<times> string) list"
    by (induction al) auto
  show ?thesis
    using assms upd
    by (fastforce simp: coref_step_def Let_def split: option.splits if_splits)
qed

lemma fix_coref_sound:
  "\<forall>v \<in> snd ` set (fix_coref str_of obj).
     lower v \<notin> PRONOUNS \<and> 1 < length v \<and> isupper (hd v)"
proof -
  have "\<forall>v \<in> snd ` set (foldl (coref_step str_of) acc items).
          lower v \<notin> PRONOUNS \<and> 1 < length v \<and> isupper (hd v)"
    if "\<forall>v \<in> snd ` set acc. lower v \<notin> PRONOUNS \<and> 1 < length v \<and> isupper (hd v)"
    for acc items
    using that
  proof (induction items arbitrary: acc)
    case Nil
    then show ?case by simp
  next
    case (Cons item items)
    show ?case
      using Cons.IH[OF coref_step_sound[OF Cons.prems]] by simp
  qed
  from this[of "[]"] show ?thesis by (simp add: fix_coref_def)
qed

section \<open>Properties of the response parser\<close>

text \<open>
  C9. On the response \<open>Sure! Here's the JSON: [{'text': 'Ok.'},]\<close> the parser returns a
  list of exactly one candidate record, whose text is \<open>Ok.\<close>: the commentary before the
  array is dropped, the single quotes become double quotes and the trailing comma goes.
\<close>

theorem fallback_parser_example:
  "parse_response (''Sure! Here'' @ [CHR 0x27] @ ''s the JSON: [{'' @ [CHR 0x27] @ ''text''
      @ [CHR 0x27] @ '': '' @ [CHR 0x27] @ ''Ok.'' @ [CHR 0x27] @ ''},]'')
   = JArr [JObj [(''text'', JStr ''Ok.'')]]"
  by code_simp

section \<open>Properties of the batches\<close>

text \<open>
  C3. Five sentences, \<open>A.\<close> to \<open>E.\<close>. In a first run the response for the batch of the
  first four is \<open>["x", {"text": "B."}]\<close>: only the record of position 1 is returned and
  written, and the store is read back as the completion set \<open>{1}\<close>. The next run then
  builds one batch, with the sentences at positions 0, 2, 3 and 4 under the anchor 0,
  and the records of the batch get the indices 0, 1, 2 and 3: the record of \<open>C.\<close>, at
  position 2, has index 1, and the record of \<open>E.\<close>, at position 4, has index 3.
\<close>

theorem batch_positions_not_contiguous:
  "process_batch (\<lambda>v. []) False (\<lambda>k. Some ''[\"x\", {\"text\": \"B.\"}]'') {}
      [''A.'', ''B.'', ''C.'', ''D.''] 0
     = ((Some [\<lparr>r_index = 1, r_text = ''B.'', r_characters = [], r_entities = [],
                 r_coref = [], r_speaker = ''Narrator''\<rparr>], 1), {})
   \<and> drain (Some [\<lparr>r_index = 1, r_text = ''B.'', r_characters = [], r_entities = [],
                 r_coref = [], r_speaker = ''Narrator''\<rparr>]) ([], {})
     = ([\<lparr>r_index = 1, r_text = ''B.'', r_characters = [], r_entities = [],
                 r_coref = [], r_speaker = ''Narrator''\<rparr>], {Num 1})
   \<and> load_existing_output_safe
       (Some (store_text [\<lparr>r_index = 1, r_text = ''B.'', r_characters = [], r_entities = [],
                 r_coref = [], r_speaker = ''Narrator''\<rparr>])) {}
     = (Inr {Num 1}, {})
   \<and> make_batches (sentences_to_process [''A.'', ''B.'', ''C.'', ''D.'', ''E.''] {Num 1})
     = [([''A.'', ''C.'', ''D.'', ''E.''], 0)]
   \<and> process_batch (\<lambda>v. []) False
       (\<lambda>k. Some ''[{\"text\": \"A.\"}, {\"text\": \"C.\"}, {\"text\": \"D.\"}, {\"text\": \"E.\"}]'')
       {} [''A.'', ''C.'', ''D.'', ''E.''] 0
     = ((Some [\<lparr>r_index = 0, r_text = ''A.'', r_characters = [], r_entities = [],
                 r_coref = [], r_speaker = ''Narrator''\<rparr>,
               \<lparr>r_index = 1, r_text = ''C.'', r_characters = [], r_entities = [],
                 r_coref = [], r_speaker = ''Narrator''\<rparr>,
               \<lparr>r_index = 2, r_text = ''D.'', r_characters = [], r_entities = [],
                 r_coref = [], r_speaker = ''Narrator''\<rparr>,
               \<lparr>r_index = 3, r_text = ''E.'', r_characters = [], r_entities = [],
                 r_coref = [], r_speaker = ''Narrator''\<rparr>], 1), {})"
  by code_simp

section \<open>Properties of the extraction client\<close>





section \<open>Properties of the resume tracker\<close>















section \<open>Reading back what the writer wrote\<close>

text \<open>
  The numbers and the strings that \<open>json.dumps\<close> prints are read back by the scanners
  of \<open>json.loads\<close>.
\<close>

lemma of_char_digit_char: "d < 10 \<Longrightarrow> of_char (digit_char d) = (48 + d :: nat)"
  by (simp add: digit_char_def)

lemma is_digit_iff: "is_digit c \<longleftrightarrow> 48 \<le> (of_char c :: nat) \<and> (of_char c :: nat) \<le> 57"
  by (simp add: is_digit_def less_eq_char_def)

lemma digit_char_props: "d < 10 \<Longrightarrow> is_digit (digit_char d) \<and> digit_val (digit_char d) = d"
  by (simp add: is_digit_iff digit_val_def of_char_digit_char)

lemma digit_char_zero: "d < 10 \<Longrightarrow> digit_char d = CHR ''0'' \<longleftrightarrow> d = 0"
proof -
  assume d: "d < 10"
  have "digit_char d = CHR ''0'' \<longleftrightarrow> (of_char (digit_char d) :: nat) = of_char (CHR ''0'')"
    by (metis of_char_eq_iff)
  then show ?thesis using d by (simp add: of_char_digit_char)
qed

lemma show_nat_simps:
  "n < 10 \<Longrightarrow> show_nat n = [digit_char n]"
  "10 \<le> n \<Longrightarrow> show_nat n = show_nat (n div 10) @ [digit_char (n mod 10)]"
  by (subst show_nat.simps, simp)+

lemma digits_val_snoc: "digits_val (ds @ [d]) = 10 * digits_val ds + digit_val d"
  by (simp add: digits_val_def)

lemma show_nat_props:
  "(\<forall>c \<in> set (show_nat n). is_digit c) \<and> show_nat n \<noteq> [] \<and> digits_val (show_nat n) = n
   \<and> (hd (show_nat n) = CHR ''0'' \<longrightarrow> n = 0)"
proof (induction n rule: show_nat.induct)
  case (1 n)
  show ?case
  proof (cases "n < 10")
    case True
    then show ?thesis
      using digit_char_props[of n] digit_char_zero[of n]
      by (simp add: show_nat_simps digits_val_def)
  next
    case False
    then have ih: "(\<forall>c \<in> set (show_nat (n div 10)). is_digit c) \<and> show_nat (n div 10) \<noteq> []
        \<and> digits_val (show_nat (n div 10)) = n div 10
        \<and> (hd (show_nat (n div 10)) = CHR ''0'' \<longrightarrow> n div 10 = 0)"
      using 1 by simp
    have m: "n mod 10 < 10" by simp
    have nz: "n div 10 \<noteq> 0" using False by simp
    show ?thesis
      using False ih digit_char_props[OF m] nz
      by (simp add: show_nat_simps digits_val_snoc)
  qed
qed

lemma takeWhile_digits:
  "\<forall>c \<in> set ds. is_digit c \<Longrightarrow> \<not> is_digit x \<Longrightarrow>
   takeWhile is_digit (ds @ x # r) = ds \<and> dropWhile is_digit (ds @ x # r) = x # r"
  by (induction ds) auto

lemma scan_int_part_show_nat:
  assumes "\<not> is_digit x"
  shows "scan_int_part (show_nat n @ x # r) = Some (show_nat n, x # r)"
proof -
  note p = show_nat_props[of n]
  obtain d ds where dd: "show_nat n = d # ds" using p by (cases "show_nat n") auto
  have dig: "is_digit d" "\<forall>c \<in> set ds. is_digit c" using p dd by auto
  show ?thesis
  proof (cases "d = CHR ''0''")
    case True
    with p dd have "n = 0" by simp
    then have "show_nat n = [CHR ''0'']"
      using digit_char_zero[of 0] by (simp add: show_nat_simps)
    then show ?thesis by (simp add: scan_int_part_def)
  next
    case False
    then show ?thesis
      using dd dig takeWhile_digits[OF dig(2) assms, of r]
      by (simp add: scan_int_part_def)
  qed
qed

lemma scan_number_show_nat:
  "scan_number (show_nat n @ CHR '','' # r) = Some (JInt (int n), CHR '','' # r)"
proof -
  have nd: "\<not> is_digit (CHR '','')" by (simp add: is_digit_def)
  note p = show_nat_props[of n]
  have hdn: "hd (show_nat n @ CHR '','' # r) \<noteq> CHR ''-''"
  proof -
    have "is_digit (hd (show_nat n))" using p by (cases "show_nat n") auto
    moreover have "\<not> is_digit (CHR ''-'')" by (simp add: is_digit_def)
    ultimately show ?thesis using p by (cases "show_nat n") auto
  qed
  have f: "scan_frac (CHR '','' # r) = None"
    by (simp add: scan_frac_def split: list.splits)
  have e: "scan_exp (CHR '','' # r) = None"
    by (simp add: scan_exp_def)
  show ?thesis
    using hdn scan_int_part_show_nat[OF nd, of n r] f e p
    by (simp add: scan_number_def Let_def)
qed

lemma hex_val_hex_char: "d < 16 \<Longrightarrow> hex_val (hex_char d) = Some d"
  by (auto simp: hex_val_def hex_char_def is_digit_iff less_eq_char_def)

lemma hex4_control:
  assumes "n < 32"
  shows "hex4 (CHR ''0'' # CHR ''0'' # hex_char (n div 16) # hex_char (n mod 16) # t) = Some n"
proof -
  have z: "hex_val (CHR ''0'') = Some 0" by (simp add: hex_val_def is_digit_def)
  have a: "hex_val (hex_char (n div 16)) = Some (n div 16)"
    using assms by (intro hex_val_hex_char) simp
  have b: "hex_val (hex_char (n mod 16)) = Some (n mod 16)"
    by (intro hex_val_hex_char) simp
  show ?thesis by (simp add: hex4_def z a b)
qed

lemma scan_escape_control:
  assumes "c < CHR 0x20"
  shows "scan_escape (CHR ''u'' # CHR ''0'' # CHR ''0'' # hex_char (of_char c div 16)
            # hex_char (of_char c mod 16) # t) = Some ([c], t)"
proof -
  have n: "(of_char c :: nat) < 32" using assms by (simp add: less_char_def)
  have u: "utf8 (of_char c) = [c]" using n by (simp add: utf8_def)
  show ?thesis
    using n by (simp add: scan_escape_def hex4_control[OF n] u)
qed

lemma scan_string_escape_char:
  "scan_string (escape_char c @ t) =
     (case scan_string t of None \<Rightarrow> None | Some (s, r) \<Rightarrow> Some (c # s, r))"
proof -
  consider (q) "c = CHR 0x22" | (b) "c = CHR 0x5C" | (n) "c = CHR 0x0A" | (r) "c = CHR 0x0D"
    | (t) "c = CHR 0x09" | (bs) "c = CHR 0x08" | (f) "c = CHR 0x0C"
    | (ctl) "c \<notin> {CHR 0x22, CHR 0x5C, CHR 0x0A, CHR 0x0D, CHR 0x09, CHR 0x08, CHR 0x0C}" "c < CHR 0x20"
    | (plain) "c \<notin> {CHR 0x22, CHR 0x5C, CHR 0x0A, CHR 0x0D, CHR 0x09, CHR 0x08, CHR 0x0C}" "\<not> c < CHR 0x20"
    by blast
  then show ?thesis
  proof cases
    case q
    then show ?thesis by (simp add: escape_char_def scan_escape_def split: option.splits)
  next
    case b
    then show ?thesis by (simp add: escape_char_def scan_escape_def split: option.splits)
  next
    case n
    then show ?thesis by (simp add: escape_char_def scan_escape_def split: option.splits)
  next
    case r
    then show ?thesis by (simp add: escape_char_def scan_escape_def split: option.splits)
  next
    case t
    then show ?thesis by (simp add: escape_char_def scan_escape_def split: option.splits)
  next
    case bs
    then show ?thesis by (simp add: escape_char_def scan_escape_def split: option.splits)
  next
    case f
    then show ?thesis by (simp add: escape_char_def scan_escape_def split: option.splits)
  next
    case ctl
    have e: "escape_char c = [CHR 0x5C, CHR ''u'', CHR ''0'', CHR ''0'',
            hex_char (of_char c div 16), hex_char (of_char c mod 16)]"
      using ctl by (simp add: escape_char_def)
    show ?thesis
      unfolding e using scan_escape_control[OF ctl(2), of t]
      by (simp split: option.splits)
  next
    case plain
    then show ?thesis by (simp add: escape_char_def split: option.splits)
  qed
qed

lemma scan_string_dumps:
  "scan_string (concat (map escape_char s) @ CHR 0x22 # rest) = Some (s, rest)"
  by (induction s) (simp_all add: scan_string_escape_char)

text \<open>The lexer on the text of a record.\<close>

lemma tcons_simps [simp]:
  "tcons ts None = None" "tcons ts (Some us) = Some (ts @ us)"
  "tcons [] r = r" "tcons ts (tcons us r) = tcons (ts @ us) r"
  by (auto simp: tcons_def split: option.splits)

lemma lex_space [simp]: "lex (CHR '' '' # s) = lex s" "lex (CHR 0x0A # s) = lex s"
  by (simp_all add: json_ws_def)

lemma lex_punct [simp]:
  "lex (CHR ''{'' # s) = tcons [TLBrace] (lex s)"
  "lex (CHR ''}'' # s) = tcons [TRBrace] (lex s)"
  "lex (CHR ''['' # s) = tcons [TLBracket] (lex s)"
  "lex (CHR '']'' # s) = tcons [TRBracket] (lex s)"
  "lex (CHR '','' # s) = tcons [TComma] (lex s)"
  "lex (CHR '':'' # s) = tcons [TColon] (lex s)"
  by (simp_all add: json_ws_def next_token_def tcons_def split: option.splits)

lemma lex_cons:
  "\<not> json_ws c \<Longrightarrow> next_token (c # cs) = Some (t, rest) \<Longrightarrow>
   lex (c # cs) = tcons [t] (lex rest)"
  by (simp add: tcons_def split: option.splits)

declare lex.simps(2) [simp del]

lemma lex_dumps_str [simp]: "lex (dumps_str x @ s) = tcons [TValue (JStr x)] (lex s)"
proof -
  have "next_token (CHR 0x22 # concat (map escape_char x) @ CHR 0x22 # s)
          = Some (TValue (JStr x), s)"
    by (simp add: next_token_def scan_string_dumps)
  then have "lex (CHR 0x22 # concat (map escape_char x) @ CHR 0x22 # s)
          = tcons [TValue (JStr x)] (lex s)"
    by (intro lex_cons) (simp_all add: json_ws_def)
  then show ?thesis by (simp add: dumps_str_def)
qed

lemma digit_not_special:
  assumes "is_digit d"
  shows "\<not> json_ws d" "d \<noteq> CHR ''{''" "d \<noteq> CHR ''}''" "d \<noteq> CHR ''[''" "d \<noteq> CHR '']''"
    "d \<noteq> CHR '',''" "d \<noteq> CHR '':''" "d \<noteq> CHR 0x22" "d \<noteq> CHR ''n''" "d \<noteq> CHR ''t''"
    "d \<noteq> CHR ''f''" "d \<noteq> CHR ''N''" "d \<noteq> CHR ''I''" "d \<noteq> CHR ''-''"
  using assms by (auto simp: is_digit_def json_ws_def)

lemma lex_show_nat [simp]:
  "lex (show_nat n @ CHR '','' # s) = tcons [TValue (JInt (int n)), TComma] (lex s)"
proof -
  note p = show_nat_props[of n]
  obtain d ds where dd: "show_nat n = d # ds" using p by (cases "show_nat n") auto
  have dig: "is_digit d" using p dd by auto
  note ns = digit_not_special[OF dig]
  have c: "scan_constant (d # ds @ CHR '','' # s) = None"
    using ns by (simp add: scan_constant_def)
  have n: "scan_number (d # ds @ CHR '','' # s) = Some (JInt (int n), CHR '','' # s)"
    using scan_number_show_nat[of n s] dd by simp
  have "next_token (d # ds @ CHR '','' # s) = Some (TValue (JInt (int n)), CHR '','' # s)"
    using ns c n by (simp add: next_token_def)
  from lex_cons[OF ns(1) this] show ?thesis
    using dd by simp
qed

lemma lex_join_strs:
  "lex (join ('','' @ [CHR 0x0A] @ ''    '') (map dumps_str (x # xs)) @ s)
     = tcons (item_tokens (map (\<lambda>x. [TValue (JStr x)]) (x # xs))) (lex s)"
  by (induction xs arbitrary: x) simp_all

lemma lex_dumps_list [simp]: "lex (dumps_list xs @ s) = tcons (list_tokens xs) (lex s)"
proof (cases xs)
  case Nil
  then show ?thesis by (simp add: dumps_list_def list_tokens_def)
next
  case (Cons x ys)
  show ?thesis
    unfolding Cons dumps_list_def list_tokens_def
    using lex_join_strs[of x ys] by simp
qed

lemma lex_join_pairs:
  "lex (join ('','' @ [CHR 0x0A] @ ''    '')
          (map (\<lambda>(k, v). dumps_str k @ '': '' @ dumps_str v) (x # xs)) @ s)
     = tcons (item_tokens (map (\<lambda>(k, v). [TValue (JStr k), TColon, TValue (JStr v)]) (x # xs)))
         (lex s)"
  by (induction xs arbitrary: x) (simp_all split: prod.splits)

lemma lex_dumps_dict [simp]: "lex (dumps_dict d @ s) = tcons (dict_tokens d) (lex s)"
proof (cases d)
  case Nil
  then show ?thesis by (simp add: dumps_dict_def dict_tokens_def)
next
  case (Cons x ys)
  show ?thesis
    unfolding Cons dumps_dict_def dict_tokens_def
    using lex_join_pairs[of x ys] by simp
qed

lemma lex_json_dumps:
  "0 \<le> r_index r \<Longrightarrow> lex (json_dumps r @ s) = tcons (rec_tokens r) (lex s)"
  by (simp add: json_dumps_def show_int_def rec_tokens_def)

text \<open>The automaton on the tokens of a record.\<close>

lemma then_run_simps [simp]:
  "then_run None ts = None" "then_run (Some c) ts = run_tokens c ts"
  by (simp_all add: then_run_def)

lemma then_run_fold [simp]:
  "(case c of None \<Rightarrow> None | Some c' \<Rightarrow> run_tokens c' ts) = then_run c ts"
  by (simp add: then_run_def)

lemma run_tokens_append:
  "run_tokens c (ts @ us) = then_run (run_tokens c ts) us"
proof (induction ts arbitrary: c)
  case Nil
  then show ?case by simp
next
  case (Cons t ts)
  show ?case by (cases "pstep c t") (simp_all add: Cons)
qed

lemma run_more_strs:
  "run_tokens (PAfter, FArr es # st)
     (concat (map (\<lambda>y. [TComma, TValue (JStr y)]) ys) @ TRBracket # ts)
   = then_run (after_value (JArr (rev es @ map JStr ys)) st) ts"
  by (induction ys arbitrary: es) (simp_all add: start_value_def)

lemma item_tokens_strs:
  "item_tokens (map (\<lambda>x. [TValue (JStr x)]) (x # xs))
     = TValue (JStr x) # concat (map (\<lambda>y. [TComma, TValue (JStr y)]) xs)"
  by (induction xs arbitrary: x) simp_all

lemma run_list_tokens:
  assumes "s = PValue \<or> s = PArrFirst"
  shows "run_tokens (s, st) (list_tokens xs @ ts) = then_run (after_value (JArr (map JStr xs)) st) ts"
proof (cases xs)
  case Nil
  then show ?thesis
    using assms by (auto simp: list_tokens_def start_value_def)
next
  case (Cons x ys)
  have "run_tokens (s, st) (list_tokens xs @ ts)
      = run_tokens (PAfter, FArr [JStr x] # st)
          (concat (map (\<lambda>y. [TComma, TValue (JStr y)]) ys) @ TRBracket # ts)"
    unfolding Cons list_tokens_def item_tokens_strs
    using assms by (auto simp: start_value_def)
  then show ?thesis
    using Cons by (simp add: run_more_strs)
qed

lemma run_more_pairs:
  "run_tokens (PAfter, FObj kvs # st)
     (concat (map (\<lambda>(k, v). [TComma, TValue (JStr k), TColon, TValue (JStr v)]) d)
        @ TRBrace # ts)
   = then_run (after_value
        (JObj (foldl (\<lambda>kvs (k, v). AList.update k (JStr v) kvs) kvs d)) st) ts"
  by (induction d arbitrary: kvs)
     (simp_all add: start_value_def read_key_def split: prod.splits)

lemma item_tokens_pairs:
  "item_tokens (map (\<lambda>(k, v). [TValue (JStr k), TColon, TValue (JStr v)]) (x # xs))
     = [TValue (JStr (fst x)), TColon, TValue (JStr (snd x))]
       @ concat (map (\<lambda>(k, v). [TComma, TValue (JStr k), TColon, TValue (JStr v)]) xs)"
  by (induction xs arbitrary: x) (simp_all split: prod.splits)

lemma run_dict_tokens:
  assumes "s = PValue \<or> s = PArrFirst"
  shows "run_tokens (s, st) (dict_tokens d @ ts) = then_run (after_value (JObj (dict_json d)) st) ts"
proof (cases d)
  case Nil
  then show ?thesis
    using assms by (auto simp: dict_tokens_def dict_json_def start_value_def)
next
  case (Cons x ys)
  have "run_tokens (s, st) (dict_tokens d @ ts)
      = run_tokens (PAfter, FObj [(fst x, JStr (snd x))] # st)
          (concat (map (\<lambda>(k, v). [TComma, TValue (JStr k), TColon, TValue (JStr v)]) ys)
             @ TRBrace # ts)"
    unfolding Cons dict_tokens_def item_tokens_pairs
    using assms by (auto simp: start_value_def read_key_def)
  then show ?thesis
    using Cons by (simp add: run_more_pairs dict_json_def split: prod.splits)
qed

lemma run_rec_tokens:
  assumes "s = PValue \<or> s = PArrFirst"
  shows "run_tokens (s, st) (rec_tokens r @ ts) = then_run (after_value (rec_json r) st) ts"
proof -
  let ?k1 = "[(''index'', JInt (r_index r)), (''text'', JStr (r_text r))]"
  let ?k2 = "?k1 @ [(''characters'', JArr (map JStr (r_characters r)))]"
  let ?k3 = "?k2 @ [(''entities'', JArr (map JStr (r_entities r)))]"
  let ?k4 = "?k3 @ [(''coref'', JObj (dict_json (r_coref r)))]"
  let ?t3 = "[TComma, TValue (JStr ''speaker''), TColon, TValue (JStr (r_speaker r)), TRBrace] @ ts"
  let ?t2 = "[TComma, TValue (JStr ''coref''), TColon] @ dict_tokens (r_coref r) @ ?t3"
  let ?t1 = "[TComma, TValue (JStr ''entities''), TColon] @ list_tokens (r_entities r) @ ?t2"
  have a: "run_tokens (s, st) (rec_tokens r @ ts)
      = run_tokens (PValue, FKey ?k1 ''characters'' # st) (list_tokens (r_characters r) @ ?t1)"
    using assms by (auto simp: rec_tokens_def start_value_def read_key_def)
  have b: "run_tokens (PValue, FKey ?k1 ''characters'' # st) (list_tokens (r_characters r) @ ?t1)
      = run_tokens (PValue, FKey ?k2 ''entities'' # st) (list_tokens (r_entities r) @ ?t2)"
    by (simp add: run_list_tokens read_key_def)
  have c: "run_tokens (PValue, FKey ?k2 ''entities'' # st) (list_tokens (r_entities r) @ ?t2)
      = run_tokens (PValue, FKey ?k3 ''coref'' # st) (dict_tokens (r_coref r) @ ?t3)"
    by (simp add: run_list_tokens read_key_def)
  have d: "run_tokens (PValue, FKey ?k3 ''coref'' # st) (dict_tokens (r_coref r) @ ?t3)
      = then_run (after_value (rec_json r) st) ts"
    by (simp add: run_dict_tokens read_key_def start_value_def rec_json_def)
  show ?thesis using a b c d by simp
qed

text \<open>The first rung fails on the store, for its trailing comma; the second reads it.\<close>

lemma store_text_body: "rs \<noteq> [] \<Longrightarrow> store_text rs = store_body rs @ '','' @ [CHR 0x0A]"
  by (induction rs rule: store_body.induct) (simp_all add: store_text_def)

lemma json_dumps_ends: "\<exists>x. json_dumps r = CHR ''{'' # x @ ''}''"
  by (simp add: json_dumps_def)

lemma store_body_ends: "rs \<noteq> [] \<Longrightarrow> \<exists>x. store_body rs = CHR ''{'' # x @ ''}''"
proof (induction rs rule: store_body.induct)
  case 1
  then show ?case by simp
next
  case (2 r)
  then show ?case using json_dumps_ends[of r] by simp
next
  case (3 r r' rs)
  then obtain x where x: "store_body (r' # rs) = CHR ''{'' # x @ ''}''" by auto
  obtain y where y: "json_dumps r = CHR ''{'' # y @ ''}''" using json_dumps_ends by blast
  have "store_body (r # r' # rs) = CHR ''{'' # (y @ ''}'' @ '','' @ [CHR 0x0A] @ CHR ''{'' # x) @ ''}''"
    using x y by simp
  then show ?case by blast
qed

lemma strip_store_text:
  assumes "rs \<noteq> []"
  shows "strip (store_text rs) = store_body rs @ '',''"
    and "content_wrapped (strip (store_text rs)) = ''['' @ store_body rs @ '']''"
proof -
  obtain x where x: "store_body rs = CHR ''{'' # x @ ''}''"
    using store_body_ends[OF assms] by blast
  show s: "strip (store_text rs) = store_body rs @ '',''"
    by (simp add: store_text_body[OF assms] x strip_def lstrip_def rstrip_def py_isspace_def)
  show "content_wrapped (strip (store_text rs)) = ''['' @ store_body rs @ '']''"
    unfolding s by (simp add: x content_wrapped_def rstrip_comma_def rstrip_def py_isspace_def)
qed

lemma lex_store_body:
  "rs \<noteq> [] \<Longrightarrow> \<forall>r \<in> set rs. 0 \<le> r_index r \<Longrightarrow>
   lex (store_body rs @ s) = tcons (item_tokens (map rec_tokens rs)) (lex s)"
proof (induction rs rule: store_body.induct)
  case 1
  then show ?case by simp
next
  case (2 r)
  then show ?case by (simp add: lex_json_dumps)
next
  case (3 r r' rs)
  then show ?case by (simp add: lex_json_dumps)
qed

lemma run_more_recs:
  "run_tokens (PAfter, FArr es # st)
     (concat (map (\<lambda>r. TComma # rec_tokens r) rs) @ TRBracket # ts)
   = then_run (after_value (JArr (rev es @ map rec_json rs)) st) ts"
  by (induction rs arbitrary: es) (simp_all add: run_rec_tokens)

lemma item_tokens_recs:
  "item_tokens (map rec_tokens (r # rs)) = rec_tokens r @ concat (map (\<lambda>r. TComma # rec_tokens r) rs)"
  by (induction rs arbitrary: r) simp_all

lemma rung2_store:
  assumes "rs \<noteq> []" and "\<forall>r \<in> set rs. 0 \<le> r_index r"
  shows "rung2 (strip (store_text rs)) = Some (map rec_json rs)"
proof -
  obtain r rs' where rs: "rs = r # rs'" using assms(1) by (cases rs) auto
  have l: "lex (''['' @ store_body rs @ '']'')
             = Some (TLBracket # item_tokens (map rec_tokens rs) @ [TRBracket])"
    using lex_store_body[OF assms, of "'']''"] by simp
  have "run_tokens (PValue, []) (TLBracket # item_tokens (map rec_tokens rs) @ [TRBracket])
      = Some (PDone (JArr (map rec_json rs)), [])"
    unfolding rs item_tokens_recs
    by (simp add: start_value_def run_rec_tokens run_more_recs)
  then have "json_loads (''['' @ store_body rs @ '']'') = Some (JArr (map rec_json rs))"
    using l by (simp add: json_loads_def)
  then show ?thesis
    by (simp add: rung2_def strip_store_text(2)[OF assms(1)])
qed

lemma rung1_store:
  assumes "rs \<noteq> []" and "\<forall>r \<in> set rs. 0 \<le> r_index r"
  shows "rung1 (strip (store_text rs)) = None"
proof -
  obtain r rs' where rs: "rs = r # rs'" using assms(1) by (cases rs) auto
  have l: "lex (store_body rs @ '','') = Some (item_tokens (map rec_tokens rs) @ [TComma])"
    using lex_store_body[OF assms, of "'',''"] by simp
  have "run_tokens (PValue, []) (item_tokens (map rec_tokens rs) @ [TComma]) = None"
  proof -
    obtain t ts where ts: "concat (map (\<lambda>r. TComma # rec_tokens r) rs') @ [TComma] = t # ts"
      by (cases "concat (map (\<lambda>r. TComma # rec_tokens r) rs') @ [TComma]") auto
    show ?thesis
      unfolding rs item_tokens_recs append_assoc ts
      by (simp add: run_rec_tokens)
  qed
  then have "json_loads (store_body rs @ '','') = None"
    using l by (simp add: json_loads_def)
  then show ?thesis
    by (simp add: rung1_def strip_store_text(1)[OF assms(1)])
qed

text \<open>The loop over the records read back.\<close>

lemma strings_of_strs: "strings_of (map JStr cs) = cs"
  by (induction cs) (simp_all add: strings_of_def List.map_filter_simps)

lemma absorb_rec_json:
  "0 \<le> r_index r \<Longrightarrow>
   absorb (rec_json r) (p, m)
     = ((insert (Num (of_int (r_index r))) p, m \<union> set (r_characters r)), None)"
  by (simp add: absorb_def rec_json_def absorb_dict_def add_index_def add_characters_def
        dict_get_def strings_of_strs)

lemma absorb_all_recs:
  "\<forall>r \<in> set rs. 0 \<le> r_index r \<Longrightarrow>
   absorb_all (map rec_json rs) (p, m)
     = ((p \<union> (\<lambda>r. Num (of_int (r_index r))) ` set rs,
         m \<union> \<Union> (set ` r_characters ` set rs)), None)"
proof (induction rs arbitrary: p m)
  case Nil
  then show ?case by simp
next
  case (Cons r rs)
  have r: "0 \<le> r_index r" and rs: "\<forall>r \<in> set rs. 0 \<le> r_index r"
    using Cons.prems by simp_all
  have "absorb_all (map rec_json (r # rs)) (p, m)
      = absorb_all (map rec_json rs)
          (insert (Num (of_int (r_index r))) p, m \<union> set (r_characters r))"
    by (simp add: absorb_rec_json[OF r])
  also have "\<dots> = ((insert (Num (of_int (r_index r))) p \<union> (\<lambda>r. Num (of_int (r_index r))) ` set rs,
         (m \<union> set (r_characters r)) \<union> \<Union> (set ` r_characters ` set rs)), None)"
    by (rule Cons.IH[OF rs])
  also have "\<dots> = ((p \<union> (\<lambda>r. Num (of_int (r_index r))) ` set (r # rs),
         m \<union> \<Union> (set ` r_characters ` set (r # rs))), None)"
    by auto
  finally show ?case .
qed

text \<open>A store that holds what the writer wrote is read back whole.\<close>

lemma load_store_text:
  assumes "\<forall>r \<in> set rs. 0 \<le> r_index r"
  shows "load_existing_output_safe (Some (store_text rs)) mentioned
           = (Inr ((\<lambda>r. Num (of_int (r_index r))) ` set rs),
              mentioned \<union> \<Union> (set ` r_characters ` set rs))"
proof (cases "rs = []")
  case True
  then show ?thesis
    by (simp add: load_existing_output_safe_def load_body_def store_text_def strip_def
          lstrip_def rstrip_def)
next
  case False
  have ne: "strip (store_text rs) \<noteq> []"
    using strip_store_text(1)[OF False] by simp
  have rl: "read_list (strip (store_text rs)) = Some (map rec_json rs)"
    by (simp add: read_list_def rung1_store[OF False assms] rung2_store[OF False assms])
  show ?thesis
    using ne rl absorb_all_recs[OF assms, of "{}" mentioned]
    by (simp add: load_existing_output_safe_def load_body_def Let_def)
qed

section \<open>Properties of the writer\<close>

text \<open>
  The writer keeps two facts: the records written have distinct indices, and each of
  these indices is in the completion set.
\<close>

lemma write_batch_results_inv:
  assumes "distinct (map r_index outfile)"
    and "\<forall>r \<in> set outfile. Num (of_int (r_index r)) \<in> processed_indices"
    and "write_batch_results batch_results (outfile, processed_indices) = (outfile', processed')"
  shows "distinct (map r_index outfile') \<and>
         (\<forall>r \<in> set outfile'. Num (of_int (r_index r)) \<in> processed') \<and>
         processed_indices \<subseteq> processed' \<and>
         (\<exists>new. outfile' = outfile @ new \<and>
            (\<forall>r \<in> set new. 0 \<le> r_index r \<and> Num (of_int (r_index r)) \<notin> processed_indices) \<and>
            processed' = processed_indices \<union> (\<lambda>r. Num (of_int (r_index r))) ` set new)"
  using assms
proof (induction batch_results arbitrary: outfile processed_indices)
  case Nil
  then show ?case by auto
next
  case (Cons obj rest)
  show ?case
  proof (cases "Num (of_int (r_index obj)) \<notin> processed_indices \<and> 0 \<le> r_index obj")
    case True
    let ?P = "insert (Num (of_int (r_index obj))) processed_indices"
    have w: "write_batch_results rest (outfile @ [obj], ?P) = (outfile', processed')"
      using Cons.prems(3) True by simp
    have fresh: "r_index obj \<notin> r_index ` set outfile"
      using Cons.prems(2) True by auto
    have d: "distinct (map r_index (outfile @ [obj]))"
      using Cons.prems(1) fresh by simp
    have c: "\<forall>r \<in> set (outfile @ [obj]). Num (of_int (r_index r)) \<in> ?P"
      using Cons.prems(2) by auto
    from Cons.IH[OF d c w] obtain new where
      i1: "distinct (map r_index outfile')"
      and i2: "\<forall>r \<in> set outfile'. Num (of_int (r_index r)) \<in> processed'"
      and i3: "?P \<subseteq> processed'"
      and i4: "outfile' = (outfile @ [obj]) @ new"
      and i5: "\<forall>r \<in> set new. 0 \<le> r_index r \<and> Num (of_int (r_index r)) \<notin> ?P"
      and i6: "processed' = ?P \<union> (\<lambda>r. Num (of_int (r_index r))) ` set new"
      by blast
    have "outfile' = outfile @ (obj # new) \<and>
          (\<forall>r \<in> set (obj # new). 0 \<le> r_index r \<and> Num (of_int (r_index r)) \<notin> processed_indices) \<and>
          processed' = processed_indices \<union> (\<lambda>r. Num (of_int (r_index r))) ` set (obj # new)"
      using i4 i5 i6 True by auto
    then show ?thesis using i1 i2 i3 by blast
  next
    case False
    then have "write_batch_results rest (outfile, processed_indices) = (outfile', processed')"
      using Cons.prems(3) by auto
    from Cons.IH[OF Cons.prems(1,2) this] show ?thesis .
  qed
qed

lemma drain_inv:
  assumes "distinct (map r_index outfile)"
    and "\<forall>r \<in> set outfile. Num (of_int (r_index r)) \<in> processed_indices"
    and "drain cleaned (outfile, processed_indices) = (outfile', processed')"
  shows "distinct (map r_index outfile') \<and>
         (\<forall>r \<in> set outfile'. Num (of_int (r_index r)) \<in> processed') \<and>
         processed_indices \<subseteq> processed' \<and>
         (\<exists>new. outfile' = outfile @ new \<and>
            (\<forall>r \<in> set new. 0 \<le> r_index r \<and> Num (of_int (r_index r)) \<notin> processed_indices) \<and>
            processed' = processed_indices \<union> (\<lambda>r. Num (of_int (r_index r))) ` set new)"
proof (cases "\<exists>rs. cleaned = Some rs \<and> rs \<noteq> []")
  case True
  then obtain rs where "cleaned = Some rs" "rs \<noteq> []" by blast
  with assms(3) have "write_batch_results rs (outfile, processed_indices) = (outfile', processed')"
    by (simp add: drain_def)
  from write_batch_results_inv[OF assms(1,2) this] show ?thesis .
next
  case False
  with assms(3) have "outfile' = outfile" "processed' = processed_indices"
    by (auto simp: drain_def split: option.splits if_splits)
  with assms(1,2) show ?thesis by auto
qed

lemma drain_all_inv:
  assumes "distinct (map r_index outfile)"
    and "\<forall>r \<in> set outfile. Num (of_int (r_index r)) \<in> processed_indices"
    and "drain_all results (outfile, processed_indices) = (outfile', processed')"
  shows "distinct (map r_index outfile') \<and>
         (\<forall>r \<in> set outfile'. Num (of_int (r_index r)) \<in> processed') \<and>
         (\<exists>new. outfile' = outfile @ new \<and>
            (\<forall>r \<in> set new. 0 \<le> r_index r \<and> Num (of_int (r_index r)) \<notin> processed_indices) \<and>
            processed' = processed_indices \<union> (\<lambda>r. Num (of_int (r_index r))) ` set new)"
  using assms
proof (induction results arbitrary: outfile processed_indices)
  case Nil
  then show ?case by auto
next
  case (Cons cleaned rest)
  obtain o1 p1 where d: "drain cleaned (outfile, processed_indices) = (o1, p1)"
    by (cases "drain cleaned (outfile, processed_indices)")
  from drain_inv[OF Cons.prems(1,2) d] obtain new1 where
    j1: "distinct (map r_index o1)"
    and j2: "\<forall>r \<in> set o1. Num (of_int (r_index r)) \<in> p1"
    and j3: "processed_indices \<subseteq> p1"
    and j4: "o1 = outfile @ new1"
    and j5: "\<forall>r \<in> set new1. 0 \<le> r_index r \<and> Num (of_int (r_index r)) \<notin> processed_indices"
    and j6: "p1 = processed_indices \<union> (\<lambda>r. Num (of_int (r_index r))) ` set new1"
    by blast
  have "drain_all rest (o1, p1) = (outfile', processed')"
    using Cons.prems(3) d by simp
  from Cons.IH[OF j1 j2 this] obtain new2 where
    k1: "distinct (map r_index outfile')"
    and k2: "\<forall>r \<in> set outfile'. Num (of_int (r_index r)) \<in> processed'"
    and k4: "outfile' = o1 @ new2"
    and k5: "\<forall>r \<in> set new2. 0 \<le> r_index r \<and> Num (of_int (r_index r)) \<notin> p1"
    and k6: "processed' = p1 \<union> (\<lambda>r. Num (of_int (r_index r))) ` set new2"
    by blast
  have "outfile' = outfile @ (new1 @ new2) \<and>
        (\<forall>r \<in> set (new1 @ new2). 0 \<le> r_index r \<and> Num (of_int (r_index r)) \<notin> processed_indices) \<and>
        processed' = processed_indices \<union> (\<lambda>r. Num (of_int (r_index r))) ` set (new1 @ new2)"
    using j3 j4 j5 j6 k4 k5 k6 by auto
  then show ?case using k1 k2 by blast
qed

text \<open>
  A run on a store that holds the records \<open>rs\<close>, with distinct indices, none negative:
  the tracker recovers the indices of \<open>rs\<close>, so the store afterwards holds \<open>rs\<close> and
  new records, again with distinct indices.
\<close>

lemma store_text_append: "store_text (xs @ ys) = store_text xs @ store_text ys"
  by (simp add: store_text_def)

lemma main_run_store:
  assumes "distinct (map r_index rs)" and "\<forall>r \<in> set rs. 0 \<le> r_index r"
  shows "\<exists>new. main_run results (store_text rs) = store_text (rs @ new)
           \<and> distinct (map r_index (rs @ new)) \<and> (\<forall>r \<in> set (rs @ new). 0 \<le> r_index r)"
proof -
  let ?P = "(\<lambda>r. Num (of_int (r_index r))) ` set rs"
  obtain new P' where d: "drain_all results ([], ?P) = (new, P')"
    by (cases "drain_all results ([], ?P)")
  have l: "fst (load_existing_output_safe (Some (store_text rs)) {}) = Inr ?P"
    by (simp add: load_store_text[OF assms(2)])
  have m: "main_run results (store_text rs) = store_text (rs @ new)"
    by (simp add: main_run_def l d store_text_append)
  have e1: "distinct (map r_index ([] :: rec list))" by simp
  have e2: "\<forall>r \<in> set ([] :: rec list). Num (of_int (r_index r)) \<in> ?P" by simp
  from drain_all_inv[OF e1 e2 d]
  have a: "distinct (map r_index new)"
    and b: "\<forall>r \<in> set new. 0 \<le> r_index r \<and> Num (of_int (r_index r)) \<notin> ?P"
    by auto
  have "r_index ` set rs \<inter> r_index ` set new = {}"
  proof (rule ccontr)
    assume "r_index ` set rs \<inter> r_index ` set new \<noteq> {}"
    then obtain x y where xy: "x \<in> set rs" "y \<in> set new" "r_index x = r_index y" by auto
    have "Num (of_int (r_index x)) \<in> ?P" using xy(1) by blast
    then have "Num (of_int (r_index y)) \<in> ?P" using xy(3) by simp
    with b xy(2) show False by blast
  qed
  then have "distinct (map r_index (rs @ new))"
    using assms(1) a by simp
  moreover have "\<forall>r \<in> set (rs @ new). 0 \<le> r_index r"
    using assms(2) b by auto
  ultimately show ?thesis using m by blast
qed

lemma main_runs_store:
  "distinct (map r_index rs) \<Longrightarrow> \<forall>r \<in> set rs. 0 \<le> r_index r \<Longrightarrow>
   \<exists>rs'. foldl (\<lambda>store results. main_run results store) (store_text rs) runs = store_text rs'
         \<and> distinct (map r_index rs')"
proof (induction runs arbitrary: rs)
  case Nil
  then show ?case by auto
next
  case (Cons results runs)
  from main_run_store[OF Cons.prems, of results] obtain new where
    m: "main_run results (store_text rs) = store_text (rs @ new)"
    and d: "distinct (map r_index (rs @ new))"
    and n: "\<forall>r \<in> set (rs @ new). 0 \<le> r_index r"
    by blast
  from Cons.IH[OF d n] show ?case by (simp add: m)
qed

text \<open>
  C2 (amended). In one run, whatever the batches are and whatever completion set the run
  starts from, the records appended to the store have pairwise distinct indices, none
  negative and none in the completion set recovered at the start, and the set ends as
  the recovered set plus the indices appended. Across any number of runs that start
  from an empty store, each run reading the store as the run before left it, the store
  is the text of records with pairwise distinct indices. An index is written twice
  only when the store held it and the recovery did not return it.
\<close>

theorem writer_appends_each_index_once:
  "(drain_all results ([], processed_indices) = (outfile, processed') \<longrightarrow>
      distinct (map r_index outfile)
    \<and> (\<forall>r \<in> set outfile. 0 \<le> r_index r \<and> Num (of_int (r_index r)) \<notin> processed_indices)
    \<and> processed' = processed_indices \<union> (\<lambda>r. Num (of_int (r_index r))) ` set outfile)
   \<and> (\<exists>rs. foldl (\<lambda>store results. main_run results store) [] runs = store_text rs
          \<and> distinct (map r_index rs))"
proof (intro conjI impI)
  assume d: "drain_all results ([], processed_indices) = (outfile, processed')"
  have e1: "distinct (map r_index ([] :: rec list))" by simp
  have e2: "\<forall>r \<in> set ([] :: rec list). Num (of_int (r_index r)) \<in> processed_indices" by simp
  from drain_all_inv[OF e1 e2 d]
  show "distinct (map r_index outfile)"
    and "\<forall>r \<in> set outfile. 0 \<le> r_index r \<and> Num (of_int (r_index r)) \<notin> processed_indices"
    and "processed' = processed_indices \<union> (\<lambda>r. Num (of_int (r_index r))) ` set outfile"
    by auto
next
  have "\<exists>rs'. foldl (\<lambda>store results. main_run results store) (store_text []) runs = store_text rs'
         \<and> distinct (map r_index rs')"
    by (rule main_runs_store) simp_all
  then show "\<exists>rs. foldl (\<lambda>store results. main_run results store) [] runs = store_text rs
          \<and> distinct (map r_index rs)"
    by (simp add: store_text_def)
qed

theorem writer_appends_each_index_once_witness:
  "drain_all
     [Some [\<lparr>r_index = 0, r_text = ''A.'', r_characters = [], r_entities = [], r_coref = [],
             r_speaker = ''Narrator''\<rparr>,
            \<lparr>r_index = 1, r_text = ''B.'', r_characters = [], r_entities = [], r_coref = [],
             r_speaker = ''Narrator''\<rparr>],
      None,
      Some [\<lparr>r_index = 1, r_text = ''B.'', r_characters = [], r_entities = [], r_coref = [],
             r_speaker = ''Narrator''\<rparr>,
            \<lparr>r_index = 2, r_text = ''C.'', r_characters = [], r_entities = [], r_coref = [],
             r_speaker = ''Narrator''\<rparr>]]
     ([], {Num 0})
   = ([\<lparr>r_index = 1, r_text = ''B.'', r_characters = [], r_entities = [], r_coref = [],
        r_speaker = ''Narrator''\<rparr>,
       \<lparr>r_index = 2, r_text = ''C.'', r_characters = [], r_entities = [], r_coref = [],
        r_speaker = ''Narrator''\<rparr>], {Num 0, Num 1, Num 2})
   \<and> distinct (map r_index
       [\<lparr>r_index = 1, r_text = ''B.'', r_characters = [], r_entities = [], r_coref = [],
         r_speaker = ''Narrator''\<rparr>,
        \<lparr>r_index = 2, r_text = ''C.'', r_characters = [], r_entities = [], r_coref = [],
         r_speaker = ''Narrator''\<rparr>])
   \<and> (\<exists>rs. foldl (\<lambda>store results. main_run results store) []
          [[Some [\<lparr>r_index = 0, r_text = ''A.'', r_characters = [], r_entities = [],
                   r_coref = [], r_speaker = ''Narrator''\<rparr>]],
           [None,
            Some [\<lparr>r_index = 0, r_text = ''A.'', r_characters = [], r_entities = [],
                   r_coref = [], r_speaker = ''Narrator''\<rparr>,
                  \<lparr>r_index = 1, r_text = ''B.'', r_characters = [], r_entities = [],
                   r_coref = [], r_speaker = ''Narrator''\<rparr>]]]
        = store_text rs \<and> distinct (map r_index rs))"
proof -
  have run: "drain_all
     [Some [\<lparr>r_index = 0, r_text = ''A.'', r_characters = [], r_entities = [], r_coref = [],
             r_speaker = ''Narrator''\<rparr>,
            \<lparr>r_index = 1, r_text = ''B.'', r_characters = [], r_entities = [], r_coref = [],
             r_speaker = ''Narrator''\<rparr>],
      None,
      Some [\<lparr>r_index = 1, r_text = ''B.'', r_characters = [], r_entities = [], r_coref = [],
             r_speaker = ''Narrator''\<rparr>,
            \<lparr>r_index = 2, r_text = ''C.'', r_characters = [], r_entities = [], r_coref = [],
             r_speaker = ''Narrator''\<rparr>]]
     ([], {Num 0})
   = ([\<lparr>r_index = 1, r_text = ''B.'', r_characters = [], r_entities = [], r_coref = [],
        r_speaker = ''Narrator''\<rparr>,
       \<lparr>r_index = 2, r_text = ''C.'', r_characters = [], r_entities = [], r_coref = [],
        r_speaker = ''Narrator''\<rparr>], {Num 0, Num 1, Num 2})"
    by code_simp
  note one = writer_appends_each_index_once[THEN conjunct1, THEN mp, OF run, THEN conjunct1]
  note all = writer_appends_each_index_once[THEN conjunct2]
  show ?thesis
    by (intro conjI) (rule run, rule one, rule all)
qed

text \<open>
  The claim as stated fails across runs. A first run writes the records 0 and 1, the
  text of record 0 holding a closing brace. The store is then cut after 140 characters,
  inside the second record (the first takes 116). The tracker recovers nothing from it:
  the first two rungs do not parse, and the fragment found for record 0 ends at the
  brace in its text. The next run therefore writes record 0 again, and the store holds
  the text of record 0 twice.
\<close>

theorem index_uniqueness_counterexample:
  "(let r0 = \<lparr>r_index = 0, r_text = ''x } y.'', r_characters = [], r_entities = [],
               r_coref = [], r_speaker = ''Narrator''\<rparr>;
        r1 = \<lparr>r_index = 1, r_text = ''z.'', r_characters = [], r_entities = [],
               r_coref = [], r_speaker = ''Narrator''\<rparr>
    in main_run [Some [r0, r1]] [] = store_text [r0, r1]
     \<and> length (store_text [r0]) = 116
     \<and> load_existing_output_safe (Some (take 140 (store_text [r0, r1]))) {} = (Inr {}, {})
     \<and> main_run [Some [r0]] (take 140 (store_text [r0, r1]))
         = store_text [r0] @ drop 116 (take 140 (store_text [r0, r1])) @ store_text [r0])"
  by code_simp

section \<open>Properties of the resume ladder\<close>









section \<open>Properties of the point-of-view resolution\<close>

lemma validate_loop_emits:
  "k < length vs \<Longrightarrow> validate_obj sf fb os b (i + k) (vs ! k) = Some r \<Longrightarrow>
   r \<in> set (fst (validate_loop sf fb os b i vs M))"
proof (induction vs arbitrary: i k M)
  case Nil
  then show ?case by simp
next
  case (Cons v vs)
  show ?case
  proof (cases k)
    case 0
    with Cons.prems show ?thesis by (auto split: prod.splits)
  next
    case (Suc j)
    with Cons.prems have j: "j < length vs" "validate_obj sf fb os b (Suc i + j) (vs ! j) = Some r"
      by auto
    have later: "r \<in> set (fst (validate_loop sf fb os b (Suc i) vs M'))" for M'
      using Cons.IH[OF j] .
    show ?thesis
    proof (cases "validate_obj sf fb os b i v")
      case None
      then show ?thesis using later[of M] by simp
    next
      case (Some r')
      obtain rs m where l: "validate_loop sf fb os b (Suc i) vs (M \<union> set (r_characters r'))
          = (rs, m)"
        by (cases "validate_loop sf fb os b (Suc i) vs (M \<union> set (r_characters r'))")
      with later[of "M \<union> set (r_characters r')"] have "r \<in> set rs" by simp
      with Some l show ?thesis by simp
    qed
  qed
qed

lemma character_ok_final: "character_ok text c \<Longrightarrow> final_speaker c = c"
  by (auto simp: character_ok_def final_speaker_def)

lemma valid_characters_hd:
  "valid_characters str_of text obj = c # cs \<Longrightarrow> character_ok text c"
proof -
  assume "valid_characters str_of text obj = c # cs"
  then have "c \<in> set (filter (character_ok text) (candidates str_of (obj_list obj ''characters'')))"
    by (simp add: valid_characters_def)
  then show ?thesis by simp
qed

lemma needs_pov_final: "needs_pov text speaker \<Longrightarrow> final_speaker speaker = ''Narrator''"
  by (auto simp: needs_pov_def final_speaker_def)

text \<open>
  C4 (amended). For a raw record at offset \<open>k\<close> of the batch that has a text, a
  first-person token in it, and a speaker that is missing, \<open>Narrator\<close>, empty or a
  pronoun, a record is returned with index \<open>base_index + k\<close> whose speaker is the first
  accepted character of the record if there is one, else the least name, in the order
  of strings, of the mentioned characters as they were when \<open>clean_and_validate\<close> was
  called (names added by earlier records of the batch are not looked at), else
  \<open>Narrator\<close>. A chosen name that is \<open>Unknown Character\<close> or empty counts as none, and
  a fallback name that is a pronoun is replaced by \<open>Narrator\<close>.
\<close>

theorem pov_candidate_priority:
  assumes "k < length parsed" and "parsed ! k = JObj obj"
    and "text = recover_text str_of obj original_sentences k" and "text \<noteq> []"
    and "needs_pov text (raw_speaker str_of obj)"
    and "finite mentioned"
  shows "(\<exists>rs m. clean_and_validate str_of mentioned (JArr parsed) original_sentences base_index
                   = (Inr rs, m)
            \<and> (\<exists>r \<in> set rs. r_index r = base_index + int k \<and> r_text r = text \<and>
                 r_speaker r =
                   (case valid_characters str_of text obj of
                      c # _ \<Rightarrow> if c = ''Unknown Character'' then ''Narrator'' else c
                    | [] \<Rightarrow>
                        if mentioned = {} \<or> Min mentioned = [] \<or>
                           Min mentioned = ''Unknown Character''
                        then ''Narrator'' else final_speaker (Min mentioned))))
       \<and> (mentioned = {} \<or> Min mentioned \<in> mentioned \<and> (\<forall>x \<in> mentioned. Min mentioned \<le> x))"
proof -
  let ?fb = "pov_char_fallback mentioned"
  let ?chars = "valid_characters str_of text obj"
  let ?raw = "raw_speaker str_of obj"
  obtain speaker fixed where rs: "resolve_speaker ?fb text ?chars ?raw (fix_coref str_of obj)
      = (speaker, fixed)"
    by (cases "resolve_speaker ?fb text ?chars ?raw (fix_coref str_of obj)")
  let ?r = "\<lparr> r_index = base_index + int k, r_text = text, r_characters = ?chars,
              r_entities = valid_entities str_of obj ?chars, r_coref = fixed,
              r_speaker = final_speaker speaker \<rparr>"
  have vo: "validate_obj str_of ?fb original_sentences base_index (0 + k) (parsed ! k) = Some ?r"
    using assms(2,3,4) rs by (simp add: validate_obj_def Let_def)
  obtain rs' m where loop: "validate_loop str_of ?fb original_sentences base_index 0 parsed mentioned
      = (rs', m)"
    by (cases "validate_loop str_of ?fb original_sentences base_index 0 parsed mentioned")
  have mem: "?r \<in> set rs'"
    using validate_loop_emits[OF assms(1) vo, of mentioned] loop by simp
  have cv: "clean_and_validate str_of mentioned (JArr parsed) original_sentences base_index
      = (Inr rs', m)"
    using loop by (simp add: clean_and_validate_def)
  have sp: "final_speaker speaker =
      (case ?chars of
         c # _ \<Rightarrow> if c = ''Unknown Character'' then ''Narrator'' else c
       | [] \<Rightarrow>
           if mentioned = {} \<or> Min mentioned = [] \<or> Min mentioned = ''Unknown Character''
           then ''Narrator'' else final_speaker (Min mentioned))"
  proof (cases ?chars)
    case Nil
    then show ?thesis
      using rs assms(5) needs_pov_final[OF assms(5)]
      by (auto simp: resolve_speaker_def current_pov_char_def pov_char_fallback_def Let_def
               split: if_splits)
  next
    case (Cons c cs)
    then show ?thesis
      using rs assms(5) needs_pov_final[OF assms(5)]
        character_ok_final[OF valid_characters_hd[OF Cons]]
      by (auto simp: resolve_speaker_def current_pov_char_def Let_def split: if_splits)
  qed
  have least: "mentioned = {} \<or> Min mentioned \<in> mentioned \<and> (\<forall>x \<in> mentioned. Min mentioned \<le> x)"
    using assms(6) by (auto intro: Min_in Min_le)
  have "\<exists>r \<in> set rs'. r_index r = base_index + int k \<and> r_text r = text \<and>
          r_speaker r =
            (case ?chars of
               c # _ \<Rightarrow> if c = ''Unknown Character'' then ''Narrator'' else c
             | [] \<Rightarrow>
                 if mentioned = {} \<or> Min mentioned = [] \<or> Min mentioned = ''Unknown Character''
                 then ''Narrator'' else final_speaker (Min mentioned))"
    using mem sp by (intro bexI[of _ ?r]) simp_all
  with cv least show ?thesis by blast
qed

theorem pov_candidate_priority_witness:
  "\<exists>rs m. clean_and_validate (\<lambda>v. []) {''Zed''}
             (JArr [JObj [(''text'', JStr ''Mary laughed.''), (''characters'', JArr [JStr ''Mary''])],
                    JObj [(''text'', JStr ''I ran.'')]])
             [''Mary laughed.'', ''I ran.''] 0 = (Inr rs, m)
         \<and> (\<exists>r \<in> set rs. r_index r = 1 \<and> r_text r = ''I ran.'' \<and> r_speaker r = ''Zed'')"
proof -
  let ?obj = "[(''text'', JStr ''I ran.'')]"
  let ?parsed = "[JObj [(''text'', JStr ''Mary laughed.''), (''characters'', JArr [JStr ''Mary''])],
                  JObj ?obj]"
  have k: "1 < length ?parsed" by simp
  have o: "?parsed ! 1 = JObj ?obj" by simp
  have t: "''I ran.'' = recover_text (\<lambda>v. []) ?obj [''Mary laughed.'', ''I ran.''] 1"
    by code_simp
  have n: "''I ran.'' \<noteq> []" by simp
  have p: "needs_pov ''I ran.'' (raw_speaker (\<lambda>v. []) ?obj)" by code_simp
  have f: "finite {''Zed''}" by simp
  have vc: "valid_characters (\<lambda>v. []) ''I ran.'' ?obj = []" by code_simp
  have mn: "Min {''Zed''} = ''Zed''" by simp
  have fs: "final_speaker ''Zed'' = ''Zed''" by code_simp
  from pov_candidate_priority[OF k o t n p f, of 0, THEN conjunct1]
  show ?thesis
    unfolding vc mn fs by simp
qed

text \<open>
  The claim as stated fails: with no character mentioned before the batch, the first
  record adds \<open>Mary\<close>, so at the second record the mentioned characters are \<open>{Mary}\<close>
  and their least name is \<open>Mary\<close>; the second record, \<open>I ran.\<close> with no speaker, still
  gets the speaker \<open>Narrator\<close>.
\<close>

theorem pov_fallback_counterexample:
  "clean_and_validate (\<lambda>v. []) {}
     (JArr [JObj [(''text'', JStr ''Mary laughed.''), (''characters'', JArr [JStr ''Mary''])],
            JObj [(''text'', JStr ''I ran.'')]])
     [''Mary laughed.'', ''I ran.''] 0
   = (Inr [\<lparr>r_index = 0, r_text = ''Mary laughed.'', r_characters = [''Mary''],
            r_entities = [''Mary''], r_coref = [], r_speaker = ''Narrator''\<rparr>,
           \<lparr>r_index = 1, r_text = ''I ran.'', r_characters = [], r_entities = [],
            r_coref = [], r_speaker = ''Narrator''\<rparr>], {''Mary''})
   \<and> snd (clean_and_validate (\<lambda>v. []) {}
        (JArr [JObj [(''text'', JStr ''Mary laughed.''), (''characters'', JArr [JStr ''Mary''])]])
        [''Mary laughed.'', ''I ran.''] 0) = {''Mary''}
   \<and> pov_char_fallback {''Mary''} = Some ''Mary''
   \<and> needs_pov ''I ran.'' (raw_speaker (\<lambda>v. []) [(''text'', JStr ''I ran.'')])"
  by code_simp

end
